theory Spec2Isabelle
  imports Complex_Main "HOL-Library.Monad_Syntax"
begin

section \<open>Data model (types.ts, state.ts)\<close>

text \<open>
  JavaScript numbers that hold counts, coordinates and scores are modelled as \<open>int\<close>.
  The two functions whose result depends on the rounding of double arithmetic,
  \<open>RNG.randomInt\<close> and \<open>calculateScore\<close>, are given a second time in double arithmetic
  (\<open>randomInt_double\<close>, \<open>calculateScore_double\<close>).
  A value the program can produce but that is not a number, a piece or a row
  (\<open>undefined\<close>, \<open>NaN\<close>) is made explicit: an array read outside its bounds is
  \<open>None\<close>, a property read on \<open>undefined\<close> is the outcome \<open>TypeError\<close>, and a score
  that would be \<open>NaN\<close> is the outcome \<open>NotANumber\<close> (the program itself would go on
  with a \<open>NaN\<close> score; the model stops there, so that no state holds a score that is
  not a number).
\<close>

datatype error = TypeError | NotANumber

type_synonym GridCell = "string option"

type_synonym TetrominoShape = "int list list"

record Position =
  pos_x :: int
  pos_y :: int

record Tetromino =
  shapes :: "TetrominoShape list"
  position :: Position
  color :: string
  rotation :: int

text \<open>
  \<open>currentTetromino\<close> and \<open>nextTetromino\<close> are read from \<open>Tetrominos[...]\<close>, which is
  \<open>undefined\<close> outside the table: \<open>None\<close> stands for that value. For \<open>heldElement\<close>,
  \<open>None\<close> stands for \<open>null\<close> and \<open>undefined\<close> alike; the program only tests it for
  truthiness.
\<close>

record State =
  currentTetromino :: "Tetromino option"
  nextTetromino :: "Tetromino option"
  heldElement :: "Tetromino option"
  grid :: "GridCell list list"
  score :: int
  level :: int
  highScore :: int
  gameEnd :: bool
  speedMultiplier :: int
  speedCount :: int
  rowsCleared :: int
  usedHold :: bool

datatype Direction = LEFT | RIGHT | DOWN | ROTATE

datatype Action = GameFlow | Down | Move Direction | Rotate | Drop | Hold

subsection \<open>Constants\<close>

definition GRID_WIDTH :: int where "GRID_WIDTH = 10"
definition GRID_HEIGHT :: int where "GRID_HEIGHT = 20"
definition START_X :: int where "START_X = 4"
definition START_Y :: int where "START_Y = 0"
definition MULTIPLIER :: int where "MULTIPLIER = 10"
definition CANVAS_WIDTH :: int where "CANVAS_WIDTH = 200"
definition CANVAS_HEIGHT :: int where "CANVAS_HEIGHT = 400"
definition Block_WIDTH :: int where "Block_WIDTH = CANVAS_WIDTH div GRID_WIDTH"
definition Block_HEIGHT :: int where "Block_HEIGHT = CANVAS_HEIGHT div GRID_HEIGHT"

lemmas Constants_defs = GRID_WIDTH_def GRID_HEIGHT_def START_X_def START_Y_def MULTIPLIER_def
  CANVAS_WIDTH_def CANVAS_HEIGHT_def Block_WIDTH_def Block_HEIGHT_def

definition startPosition :: Position where
  "startPosition = \<lparr>pos_x = START_X, pos_y = START_Y\<rparr>"

definition O_TETROMINO :: Tetromino where
  "O_TETROMINO = \<lparr>shapes = [[[1, 1], [1, 1]]],
     position = startPosition, color = ''yellow'', rotation = 0\<rparr>"

definition T_TETROMINO :: Tetromino where
  "T_TETROMINO = \<lparr>shapes =
     [[[0, 1, 0], [1, 1, 1], [0, 0, 0]],
      [[0, 1, 0], [0, 1, 1], [0, 1, 0]],
      [[0, 0, 0], [1, 1, 1], [0, 1, 0]],
      [[0, 1, 0], [1, 1, 0], [0, 1, 0]]],
     position = startPosition, color = ''purple'', rotation = 0\<rparr>"

definition I_TETROMINO :: Tetromino where
  "I_TETROMINO = \<lparr>shapes =
     [[[1, 1, 1, 1], [0, 0, 0, 0], [0, 0, 0, 0], [0, 0, 0, 0]],
      [[0, 0, 0, 1], [0, 0, 0, 1], [0, 0, 0, 1], [0, 0, 0, 1]],
      [[0, 0, 0, 0], [0, 0, 0, 0], [0, 0, 0, 0], [1, 1, 1, 1]],
      [[1, 0, 0, 0], [1, 0, 0, 0], [1, 0, 0, 0], [1, 0, 0, 0]]],
     position = startPosition, color = ''cyan'', rotation = 0\<rparr>"

definition S_TETROMINO :: Tetromino where
  "S_TETROMINO = \<lparr>shapes =
     [[[0, 1, 1], [1, 1, 0], [0, 0, 0]],
      [[0, 1, 0], [0, 1, 1], [0, 0, 1]],
      [[0, 0, 0], [0, 1, 1], [1, 1, 0]],
      [[1, 0, 0], [1, 1, 0], [0, 1, 0]]],
     position = startPosition, color = ''green'', rotation = 0\<rparr>"

definition Z_TETROMINO :: Tetromino where
  "Z_TETROMINO = \<lparr>shapes =
     [[[1, 1, 0], [0, 1, 1], [0, 0, 0]],
      [[0, 0, 1], [0, 1, 1], [0, 1, 0]],
      [[0, 0, 0], [1, 1, 0], [0, 1, 1]],
      [[0, 1, 0], [1, 1, 0], [1, 0, 0]]],
     position = startPosition, color = ''red'', rotation = 0\<rparr>"

definition L_TETROMINO :: Tetromino where
  "L_TETROMINO = \<lparr>shapes =
     [[[1, 0, 0], [1, 1, 1], [0, 0, 0]],
      [[0, 1, 1], [0, 1, 0], [0, 1, 0]],
      [[0, 0, 0], [1, 1, 1], [0, 0, 1]],
      [[0, 1, 0], [0, 1, 0], [1, 1, 0]]],
     position = startPosition, color = ''orange'', rotation = 0\<rparr>"

definition J_TETROMINO :: Tetromino where
  "J_TETROMINO = \<lparr>shapes =
     [[[0, 0, 1], [1, 1, 1], [0, 0, 0]],
      [[0, 1, 0], [0, 1, 0], [0, 1, 1]],
      [[0, 0, 0], [1, 1, 1], [1, 0, 0]],
      [[1, 1, 0], [0, 1, 0], [0, 1, 0]]],
     position = startPosition, color = ''blue'', rotation = 0\<rparr>"

definition Tetrominos :: "Tetromino list" where
  "Tetrominos = [O_TETROMINO, S_TETROMINO, L_TETROMINO, Z_TETROMINO,
                 J_TETROMINO, I_TETROMINO, T_TETROMINO]"

lemmas Tetromino_defs = O_TETROMINO_def T_TETROMINO_def I_TETROMINO_def S_TETROMINO_def
  Z_TETROMINO_def L_TETROMINO_def J_TETROMINO_def startPosition_def

section \<open>JavaScript array primitives\<close>

text \<open>\<open>xs[i]\<close>: the element, or \<open>undefined\<close> (here \<open>None\<close>) when \<open>i\<close> is no index of \<open>xs\<close>.\<close>

definition js_index :: "'a list \<Rightarrow> int \<Rightarrow> 'a option" where
  "js_index xs i = (if 0 \<le> i \<and> i < int (length xs) then Some (xs ! nat i) else None)"

text \<open>
  Truthiness of what \<open>state.grid[r][c]\<close> yields once the row exists: \<open>undefined\<close>,
  \<open>null\<close> and the empty string are falsy, every other string is truthy.
\<close>

definition truthy :: "GridCell option \<Rightarrow> bool" where
  "truthy v = (case v of None \<Rightarrow> False | Some None \<Rightarrow> False | Some (Some s) \<Rightarrow> s \<noteq> [])"

text \<open>
  \<open>xs.some((v, i) => f)\<close> where the callback may throw: elements are visited in order,
  the first truthy answer or the first exception ends the visit.
\<close>

fun someE :: "(nat \<Rightarrow> 'a \<Rightarrow> error + bool) \<Rightarrow> nat \<Rightarrow> 'a list \<Rightarrow> error + bool" where
  "someE f i [] = Inr False"
| "someE f i (v # vs) =
     (case f i v of
        Inl e \<Rightarrow> Inl e
      | Inr True \<Rightarrow> Inr True
      | Inr False \<Rightarrow> someE f (Suc i) vs)"

text \<open>\<open>xs.map((v, i) => f)\<close> where the callback may throw.\<close>

fun mapE :: "(nat \<Rightarrow> 'a \<Rightarrow> error + 'b) \<Rightarrow> nat \<Rightarrow> 'a list \<Rightarrow> error + 'b list" where
  "mapE f i [] = Inr []"
| "mapE f i (v # vs) =
     (case f i v of
        Inl e \<Rightarrow> Inl e
      | Inr w \<Rightarrow> (case mapE f (Suc i) vs of Inl e \<Rightarrow> Inl e | Inr ws \<Rightarrow> Inr (w # ws)))"

section \<open>JavaScript numbers\<close>

text \<open>
  A JavaScript number is an IEEE 754 double. A finite double is given here by the
  rational number it denotes (the two zeros are one value), and \<open>None\<close> stands for a
  result that is not finite (\<open>NaN\<close>, \<open>Infinity\<close>, \<open>-Infinity\<close>). An arithmetic operation
  computes the exact result and rounds it to the nearest double, a tie to the double
  with the even significand.
\<close>

text \<open>\<open>log2up x\<close> is \<open>floor(log2(x))\<close> for \<open>x \<ge> 1\<close>, and \<open>log2down x\<close> is
  \<open>- floor(log2(x))\<close> for \<open>0 < x < 1\<close>.\<close>

function log2up :: "rat \<Rightarrow> nat" where
  "log2up x = (if 2 \<le> x then Suc (log2up (x / 2)) else 0)"
  by pat_completeness auto
termination
proof (relation "measure (\<lambda>x. nat \<lfloor>x\<rfloor>)")
  show "wf (measure (\<lambda>x::rat. nat \<lfloor>x\<rfloor>))" by simp
next
  fix x :: rat assume "2 \<le> x"
  then have "x / 2 \<le> x - 1" by simp
  then have "\<lfloor>x / 2\<rfloor> \<le> \<lfloor>x - 1\<rfloor>" by (rule floor_mono)
  moreover have "1 \<le> \<lfloor>x\<rfloor>" using \<open>2 \<le> x\<close> by (simp add: le_floor_iff)
  ultimately show "(x / 2, x) \<in> measure (\<lambda>x. nat \<lfloor>x\<rfloor>)" by simp
qed

function log2down :: "rat \<Rightarrow> nat" where
  "log2down x = (if 0 < x \<and> x < 1 then Suc (log2down (2 * x)) else 0)"
  by pat_completeness auto
termination
proof (relation "measure (\<lambda>x. nat \<lfloor>1 / x\<rfloor>)")
  show "wf (measure (\<lambda>x::rat. nat \<lfloor>1 / x\<rfloor>))" by simp
next
  fix x :: rat assume a: "0 < x \<and> x < 1"
  define y where "y = 1 / x"
  have y: "1 < y" using a by (simp add: y_def)
  have "\<lfloor>y / 2\<rfloor> < \<lfloor>y\<rfloor>"
  proof (cases "2 \<le> y")
    case True
    then have "y / 2 \<le> y - 1" by simp
    then have "\<lfloor>y / 2\<rfloor> \<le> \<lfloor>y - 1\<rfloor>" by (rule floor_mono)
    then show ?thesis by simp
  next
    case False
    then have "\<lfloor>y / 2\<rfloor> = 0" using y by (simp add: floor_eq_iff)
    moreover have "1 \<le> \<lfloor>y\<rfloor>" using y by (simp add: le_floor_iff)
    ultimately show ?thesis by simp
  qed
  moreover have one: "1 \<le> \<lfloor>y\<rfloor>" using y by (simp add: le_floor_iff)
  ultimately have "nat \<lfloor>y / 2\<rfloor> < nat \<lfloor>y\<rfloor>" by linarith
  moreover have e: "y / 2 = 1 / (2 * x)" by (simp add: y_def)
  ultimately have "nat \<lfloor>1 / (2 * x)\<rfloor> < nat \<lfloor>1 / x\<rfloor>" by (simp only: e y_def)
  then show "(2 * x, x) \<in> measure (\<lambda>x. nat \<lfloor>1 / x\<rfloor>)" by (simp only: in_measure)
qed

declare log2up.simps [simp del] log2down.simps [simp del]

text \<open>The binary exponent of \<open>x > 0\<close>: \<open>2^e \<le> x < 2^(e + 1)\<close>.\<close>

definition ilog2 :: "rat \<Rightarrow> int" where
  "ilog2 x = (if 1 \<le> x then int (log2up x) else - int (log2down x))"

text \<open>The nearest integer, a tie to the even one.\<close>

definition roundHalfEven :: "rat \<Rightarrow> int" where
  "roundHalfEven y =
     (let f = \<lfloor>y\<rfloor>; r = y - of_int f
      in if r < 1 / 2 then f else if 1 / 2 < r then f + 1 else if even f then f else f + 1)"

text \<open>
  The nearest number with a significand of 53 bits and an exponent of at least
  \<open>-1022\<close> (below \<open>2^(-1022)\<close> the doubles are the multiples of \<open>2^(-1074)\<close>): the
  multiple of the unit in the last place \<open>u = 2^(e - 52)\<close> that is nearest to \<open>x\<close>.
  \<open>fl x\<close> is the double a computation with the exact result \<open>x\<close> yields: that
  number when its magnitude is below \<open>2^1024\<close>, and an infinity otherwise.
\<close>

definition roundToDouble :: "rat \<Rightarrow> rat" where
  "roundToDouble x =
     (if x = 0 then 0
      else let e = max (ilog2 \<bar>x\<bar>) (- 1022); u = 2 powi (e - 52)
           in of_int (roundHalfEven (x / u)) * u)"

definition fl :: "rat \<Rightarrow> rat option" where
  "fl x = (let y = roundToDouble x in if \<bar>y\<bar> < 2 ^ 1024 then Some y else None)"

text \<open>The operators \<open>+\<close>, \<open>-\<close>, \<open>*\<close>, \<open>/\<close> and \<open>%\<close> on finite doubles. A division by zero
  yields an infinity or \<open>NaN\<close>, a remainder by zero \<open>NaN\<close>. The remainder has the sign of
  the dividend and is exact.\<close>

definition fadd :: "rat \<Rightarrow> rat \<Rightarrow> rat option" where "fadd x y = fl (x + y)"

definition fsub :: "rat \<Rightarrow> rat \<Rightarrow> rat option" where "fsub x y = fl (x - y)"

definition fmul :: "rat \<Rightarrow> rat \<Rightarrow> rat option" where "fmul x y = fl (x * y)"

definition fdiv :: "rat \<Rightarrow> rat \<Rightarrow> rat option" where
  "fdiv x y = (if y = 0 then None else fl (x / y))"

definition frem :: "rat \<Rightarrow> rat \<Rightarrow> rat option" where
  "frem x y = (if y = 0 then None
               else Some (x - y * of_int (if 0 \<le> x / y then \<lfloor>x / y\<rfloor> else \<lceil>x / y\<rceil>)))"

section \<open>Utility functions (util.ts)\<close>

subsection \<open>Random generator\<close>

definition RNG_m :: int where "RNG_m = 2147483648"

text \<open>
  \<open>RNG.randomInt(min, max)\<close> reads the clock and hashes it with
  \<open>(a * seed + c) % m\<close>. In the model of the game the clock is the environment's
  input: the parameter \<open>h\<close> is the value of \<open>RNG.hash(Date.now())\<close> that the body of
  \<open>randomInt\<close> starts from, and the scaling and the floor are taken over the
  rationals. \<open>randomInt_double\<close> below is the same function in double arithmetic,
  from the clock value.
\<close>

definition randomInt :: "int \<Rightarrow> int \<Rightarrow> int \<Rightarrow> int" where
  "randomInt h min_v max_v =
     (let scale = (of_int h :: rat) / of_int (RNG_m - 1)
      in \<lfloor>of_int min_v + scale * of_int (max_v - min_v + 1)\<rfloor>)"

text \<open>\<open>Tetrominos[RNG.randomInt(0, Tetrominos.length - 1)]\<close>\<close>

definition randomTetromino :: "int \<Rightarrow> Tetromino option" where
  "randomTetromino h = js_index Tetrominos (randomInt h 0 (int (length Tetrominos) - 1))"

text \<open>\<open>RNG.hash(seed)\<close> in double arithmetic: the product and the sum are rounded.\<close>

definition RNG_a :: int where "RNG_a = 1103515245"

definition RNG_c :: int where "RNG_c = 12345"

definition RNG_hash :: "rat \<Rightarrow> rat option" where
  "RNG_hash seed =
     do { p \<leftarrow> fmul (of_int RNG_a) seed;
          s \<leftarrow> fadd p (of_int RNG_c);
          frem s (of_int RNG_m) }"

text \<open>\<open>RNG.randomInt(min, max)\<close> in double arithmetic; \<open>now\<close> is the value of
  \<open>Date.now()\<close>, a whole number of milliseconds.\<close>

definition randomInt_double :: "rat \<Rightarrow> rat \<Rightarrow> rat \<Rightarrow> int option" where
  "randomInt_double now min_v max_v =
     do { hash \<leftarrow> RNG_hash now;
          m1 \<leftarrow> fsub (of_int RNG_m) 1;
          scale \<leftarrow> fdiv hash m1;
          d \<leftarrow> fsub max_v min_v;
          n \<leftarrow> fadd d 1;
          p \<leftarrow> fmul scale n;
          t \<leftarrow> fadd min_v p;
          Some \<lfloor>t\<rfloor> }"

subsection \<open>Grid\<close>

definition initialiseGrid :: "nat \<Rightarrow> nat \<Rightarrow> GridCell list list" where
  "initialiseGrid width height = replicate height (replicate width None)"

text \<open>The callback of the inner \<open>row.map\<close> of \<open>placeTetrominoOnGrid\<close>, with the
  left-to-right evaluation of its \<open>&&\<close> chain.\<close>

definition placeCell :: "Tetromino \<Rightarrow> nat \<Rightarrow> nat \<Rightarrow> GridCell \<Rightarrow> error + GridCell" where
  "placeCell t rowIndex colIndex cell =
     (let relativeY = int rowIndex - pos_y (position t);
          relativeX = int colIndex - pos_x (position t)
      in if relativeY \<ge> 0 then
           (case js_index (shapes t) (rotation t) of
              None \<Rightarrow> Inl TypeError
            | Some sh \<Rightarrow>
                if relativeY < int (length sh) \<and> relativeX \<ge> 0 then
                  (case js_index sh 0 of
                     None \<Rightarrow> Inl TypeError
                   | Some r0 \<Rightarrow>
                       if relativeX < int (length r0) then
                         (case js_index sh relativeY of
                            None \<Rightarrow> Inl TypeError
                          | Some r \<Rightarrow>
                              if js_index r relativeX = Some 1
                              then Inr (Some (color t)) else Inr cell)
                       else Inr cell)
                else Inr cell)
         else Inr cell)"

definition placeTetrominoOnGrid :: "GridCell list list \<Rightarrow> Tetromino \<Rightarrow> error + GridCell list list" where
  "placeTetrominoOnGrid g t =
     mapE (\<lambda>rowIndex row. mapE (\<lambda>colIndex cell. placeCell t rowIndex colIndex cell) 0 row) 0 g"

definition fullRow :: "GridCell list \<Rightarrow> bool" where
  "fullRow row = list_all (\<lambda>cell. cell \<noteq> None) row"

text \<open>\<open>grid[0].length\<close> throws on a grid without rows.\<close>

definition lineClear :: "GridCell list list \<Rightarrow> error + (GridCell list list \<times> int)" where
  "lineClear g =
     (let newGrid = filter (\<lambda>row. \<not> fullRow row) g
      in case g of
           [] \<Rightarrow> Inl TypeError
         | r0 # _ \<Rightarrow>
             (let newRow = replicate (length r0) None;
                  newRows = replicate (length g - length newGrid) newRow
              in Inr (newRows @ newGrid, int (length g) - int (length newGrid))))"

definition topOut :: "GridCell list list \<Rightarrow> error + bool" where
  "topOut g = (case g of [] \<Rightarrow> Inl TypeError | r0 # _ \<Rightarrow> Inr (list_ex (\<lambda>cell. cell \<noteq> None) r0))"

definition scores :: "int list" where
  "scores = [40, 100, 300, 1200]"

text \<open>\<open>scores[rowsCleared - 1]\<close> outside the table is \<open>undefined\<close>, and the product \<open>NaN\<close>.\<close>

definition calculateScore :: "int \<Rightarrow> int \<Rightarrow> error + int" where
  "calculateScore lvl cleared =
     (if cleared = 0 then Inr cleared
      else case js_index scores (cleared - 1) of
             None \<Rightarrow> Inl NotANumber
           | Some v \<Rightarrow> Inr ((lvl + 1) * v))"

text \<open>\<open>calculateScore\<close> in double arithmetic: the sum \<open>level + 1\<close> and the product are
  rounded; a product with \<open>undefined\<close> is \<open>NaN\<close>.\<close>

definition calculateScore_double :: "rat \<Rightarrow> int \<Rightarrow> rat option" where
  "calculateScore_double lvl cleared =
     (if cleared = 0 then Some (of_int cleared)
      else case js_index scores (cleared - 1) of
             None \<Rightarrow> None
           | Some v \<Rightarrow> do { l \<leftarrow> fadd lvl 1; fmul l (of_int v) })"

section \<open>State processing (state.ts)\<close>

text \<open>The test applied to one filled shape cell at \<open>(x, y)\<close> of the shape matrix.\<close>

definition cellCollides :: "State \<Rightarrow> Position \<Rightarrow> Direction \<Rightarrow> nat \<Rightarrow> nat \<Rightarrow> error + bool" where
  "cellCollides s p d yy xx =
     (case d of
        DOWN \<Rightarrow>
          (let newY = pos_y p + int yy + 1
           in if newY * Block_HEIGHT \<ge> CANVAS_HEIGHT then Inr True
              else (case js_index (grid s) newY of
                      None \<Rightarrow> Inl TypeError
                    | Some row \<Rightarrow> Inr (truthy (js_index row (pos_x p + int xx)))))
      | LEFT \<Rightarrow>
          (let newX = pos_x p + int xx - 1
           in if newX < 0 then Inr True
              else (case js_index (grid s) (pos_y p + int yy) of
                      None \<Rightarrow> Inl TypeError
                    | Some row \<Rightarrow> Inr (truthy (js_index row newX))))
      | RIGHT \<Rightarrow>
          (let newX = pos_x p + int xx + 1
           in if newX \<ge> CANVAS_WIDTH div Block_WIDTH then Inr True
              else (case js_index (grid s) (pos_y p + int yy) of
                      None \<Rightarrow> Inl TypeError
                    | Some row \<Rightarrow> Inr (truthy (js_index row newX))))
      | ROTATE \<Rightarrow>
          (let newY = pos_y p + int yy; newX = pos_x p + int xx
           in if newY < 0 \<or> newY \<ge> CANVAS_HEIGHT div Block_HEIGHT
                 \<or> newX < 0 \<or> newX \<ge> CANVAS_WIDTH div Block_WIDTH then Inr True
              else (case js_index (grid s) newY of
                      None \<Rightarrow> Inl TypeError
                    | Some row \<Rightarrow> Inr (truthy (js_index row newX)))))"

definition collisionDetection :: "State \<Rightarrow> Direction \<Rightarrow> error + bool" where
  "collisionDetection s d =
     (case currentTetromino s of
        None \<Rightarrow> Inl TypeError
      | Some t \<Rightarrow>
          (case js_index (shapes t) (rotation t) of
             None \<Rightarrow> Inl TypeError
           | Some tetrominoShape \<Rightarrow>
               someE (\<lambda>yy row.
                 someE (\<lambda>xx cell.
                   if cell \<noteq> 0 then cellCollides s (position t) d yy xx else Inr False) 0 row)
                 0 tetrominoShape))"

definition moveTetrominoDown :: "int \<Rightarrow> State \<Rightarrow> error + State" where
  "moveTetrominoDown h s =
     (case collisionDetection s DOWN of
        Inl e \<Rightarrow> Inl e
      | Inr True \<Rightarrow>
          (case currentTetromino s of
             None \<Rightarrow> Inl TypeError
           | Some t \<Rightarrow>
               (case placeTetrominoOnGrid (grid s) t of
                  Inl e \<Rightarrow> Inl e
                | Inr placed \<Rightarrow>
                    (case lineClear placed of
                       Inl e \<Rightarrow> Inl e
                     | Inr (newGrid, cleared) \<Rightarrow>
                         (let newRowsCleared = rowsCleared s + cleared;
                              newLevel = 1 + newRowsCleared div 3
                          in case topOut newGrid of
                               Inl e \<Rightarrow> Inl e
                             | Inr ended \<Rightarrow>
                                 (case calculateScore (level s) cleared of
                                    Inl e \<Rightarrow> Inl e
                                  | Inr points \<Rightarrow>
                                      Inr (s\<lparr>currentTetromino := nextTetromino s,
                                             nextTetromino := randomTetromino h,
                                             grid := newGrid,
                                             gameEnd := ended,
                                             score := score s + points,
                                             speedCount := 0,
                                             speedMultiplier := MULTIPLIER - newLevel,
                                             level := newLevel,
                                             rowsCleared := newRowsCleared,
                                             usedHold := False\<rparr>))))))
      | Inr False \<Rightarrow>
          (case currentTetromino s of
             None \<Rightarrow> Inl TypeError
           | Some t \<Rightarrow>
               Inr (s\<lparr>currentTetromino :=
                         Some (t\<lparr>position := \<lparr>pos_x = pos_x (position t),
                                               pos_y = pos_y (position t) + 1\<rparr>\<rparr>),
                      speedCount := 0\<rparr>)))"

text \<open>The two draws of \<open>initialState\<close> happen once, when the module is loaded; \<open>h1\<close> and
  \<open>h2\<close> are their hash values.\<close>

definition initialState :: "int \<Rightarrow> int \<Rightarrow> State" where
  "initialState h1 h2 =
     \<lparr>currentTetromino = randomTetromino h1,
      nextTetromino = randomTetromino h2,
      heldElement = None,
      grid = initialiseGrid (nat (CANVAS_WIDTH div Block_WIDTH)) (nat (CANVAS_HEIGHT div Block_HEIGHT)),
      score = 0,
      level = 1,
      highScore = 0,
      gameEnd = False,
      speedMultiplier = 10,
      speedCount = 0,
      rowsCleared = 0,
      usedHold = False\<rparr>"

definition GameFlow_apply :: "State \<Rightarrow> int \<Rightarrow> State \<Rightarrow> error + State" where
  "GameFlow_apply init h s =
     (if gameEnd s then
        Inr (init\<lparr>highScore := (if score s > highScore s then score s else highScore s)\<rparr>)
      else if speedCount s \<ge> speedMultiplier s then moveTetrominoDown h s
      else Inr (s\<lparr>speedCount := speedCount s + 1\<rparr>))"

definition Down_apply :: "int \<Rightarrow> State \<Rightarrow> error + State" where
  "Down_apply h s = moveTetrominoDown h s"

definition Move_apply :: "Direction \<Rightarrow> State \<Rightarrow> error + State" where
  "Move_apply direction s =
     (case collisionDetection s direction of
        Inl e \<Rightarrow> Inl e
      | Inr True \<Rightarrow> Inr s
      | Inr False \<Rightarrow>
          (case currentTetromino s of
             None \<Rightarrow> Inl TypeError
           | Some t \<Rightarrow>
               (let newPosition =
                      \<lparr>pos_x = pos_x (position t) + (if direction = RIGHT then 1 else - 1),
                       pos_y = pos_y (position t)\<rparr>
                in Inr (s\<lparr>currentTetromino := Some (t\<lparr>position := newPosition\<rparr>)\<rparr>))))"

definition Rotate_apply :: "State \<Rightarrow> error + State" where
  "Rotate_apply s =
     (case currentTetromino s of
        None \<Rightarrow> Inl TypeError
      | Some t \<Rightarrow>
          (let currentRotation = rotation t;
               newRotation = (if currentRotation + 1 < int (length (shapes t))
                              then currentRotation + 1 else 0);
               newState = s\<lparr>currentTetromino := Some (t\<lparr>rotation := newRotation\<rparr>)\<rparr>
           in case collisionDetection newState ROTATE of
                Inl e \<Rightarrow> Inl e
              | Inr hit \<Rightarrow> Inr (if \<not> hit then newState else s)))"

text \<open>
  \<open>Drop.apply\<close> calls itself until a DOWN collision is found. The fuel counts the
  calls: \<open>None\<close> means the recursion was still running when the fuel ran out. Every call
  performs exactly one \<open>moveTetrominoDown\<close>.
\<close>

fun Drop_apply :: "nat \<Rightarrow> int \<Rightarrow> State \<Rightarrow> (error + State) option" where
  "Drop_apply 0 h s = None"
| "Drop_apply (Suc n) h s =
     (case collisionDetection s DOWN of
        Inl e \<Rightarrow> Some (Inl e)
      | Inr True \<Rightarrow> Some (moveTetrominoDown h s)
      | Inr False \<Rightarrow>
          (case moveTetrominoDown h s of
             Inl e \<Rightarrow> Some (Inl e)
           | Inr s' \<Rightarrow> Drop_apply n h s'))"

definition Hold_apply :: "int \<Rightarrow> State \<Rightarrow> error + State" where
  "Hold_apply h s =
     (if usedHold s then Inr s
      else case heldElement s of
             None \<Rightarrow>
               Inr (s\<lparr>currentTetromino := nextTetromino s,
                      nextTetromino := randomTetromino h,
                      heldElement := currentTetromino s,
                      usedHold := True\<rparr>)
           | Some held \<Rightarrow>
               Inr (s\<lparr>currentTetromino := Some held,
                      heldElement := currentTetromino s,
                      usedHold := True\<rparr>))"

text \<open>
  \<open>reduceState\<close>: \<open>init\<close> is the module's \<open>initialState\<close>, \<open>n\<close> the fuel of a hard drop
  and \<open>h\<close> the hash value of the draw the action may make (no action draws twice).
\<close>

definition reduceState :: "State \<Rightarrow> nat \<Rightarrow> int \<Rightarrow> State \<Rightarrow> Action \<Rightarrow> (error + State) option" where
  "reduceState init n h s a =
     (case a of
        GameFlow \<Rightarrow> Some (GameFlow_apply init h s)
      | Down \<Rightarrow> Some (Down_apply h s)
      | Move d \<Rightarrow> Some (Move_apply d s)
      | Rotate \<Rightarrow> Some (Rotate_apply s)
      | Drop \<Rightarrow> Drop_apply n h s
      | Hold \<Rightarrow> Some (Hold_apply h s))"

text \<open>The states the driver's \<open>scan\<close> can emit: the initial state, and every state an
  action returns from an emitted state.\<close>

inductive reachable :: "int \<Rightarrow> int \<Rightarrow> State \<Rightarrow> bool" for h1 h2 :: int where
  reachable_init: "reachable h1 h2 (initialState h1 h2)"
| reachable_step: "reachable h1 h2 s \<Longrightarrow>
     reduceState (initialState h1 h2) n h s a = Some (Inr s') \<Longrightarrow> reachable h1 h2 s'"

section \<open>Vocabulary of the properties\<close>

text \<open>
  The definitions of this section are not part of the program. They name what the
  properties below speak about: the filled cells of a shape, the truthiness of a grid
  position, iterated down-steps, the invariants of the emitted states, and a few
  concrete states and action sequences.
\<close>

text \<open>The coordinates \<open>(x, y)\<close> of the truthy entries of a shape matrix.\<close>

definition filledCells :: "TetrominoShape \<Rightarrow> (nat \<times> nat) list" where
  "filledCells sh =
     concat (map (\<lambda>yy. map (\<lambda>xx. (xx, yy)) (filter (\<lambda>xx. sh ! yy ! xx \<noteq> 0) [0..<length (sh ! yy)]))
                 [0..<length sh])"

text \<open>What \<open>state.grid[r][c]\<close> yields is truthy; a missing row or column counts as free.\<close>

definition occupiedAt :: "GridCell list list \<Rightarrow> int \<Rightarrow> int \<Rightarrow> bool" where
  "occupiedAt g r c = (case js_index g r of None \<Rightarrow> False | Some row \<Rightarrow> truthy (js_index row c))"

text \<open>Some filled cell of the shape, placed at \<open>p\<close>, is outside the 10 by 20 board or on
  a truthy grid cell.\<close>

definition rotationBlocked :: "GridCell list list \<Rightarrow> Position \<Rightarrow> TetrominoShape \<Rightarrow> bool" where
  "rotationBlocked g p sh =
     list_ex (\<lambda>(xx, yy).
        pos_y p + int yy < 0 \<or> pos_y p + int yy \<ge> 20
        \<or> pos_x p + int xx < 0 \<or> pos_x p + int xx \<ge> 10
        \<or> occupiedAt g (pos_y p + int yy) (pos_x p + int xx)) (filledCells sh)"

text \<open>\<open>k\<close> successive calls of \<open>moveTetrominoDown\<close>.\<close>

fun downSteps :: "nat \<Rightarrow> int \<Rightarrow> State \<Rightarrow> error + State" where
  "downSteps 0 h s = Inr s"
| "downSteps (Suc k) h s =
     (case moveTetrominoDown h s of Inl e \<Rightarrow> Inl e | Inr s' \<Rightarrow> downSteps k h s')"

text \<open>The cell \<open>(i, j)\<close> of the grid receives the colour of the piece.\<close>

definition covers :: "Tetromino \<Rightarrow> TetrominoShape \<Rightarrow> nat \<Rightarrow> nat \<Rightarrow> bool" where
  "covers t sh i j =
     (0 \<le> int i - pos_y (position t) \<and> int i - pos_y (position t) < int (length sh)
      \<and> 0 \<le> int j - pos_x (position t) \<and> int j - pos_x (position t) < int (length (sh ! 0))
      \<and> js_index (sh ! nat (int i - pos_y (position t))) (int j - pos_x (position t)) = Some 1)"

definition gridOK :: "GridCell list list \<Rightarrow> bool" where
  "gridOK g \<longleftrightarrow> length g = 20 \<and> (\<forall>row\<in>set g. length row = 10)"

definition okPiece :: "Tetromino \<Rightarrow> bool" where
  "okPiece t \<longleftrightarrow> 0 \<le> rotation t \<and> rotation t < int (length (shapes t))
                \<and> (\<forall>sh\<in>set (shapes t). length sh \<le> 4)"

definition piecesOK :: "State \<Rightarrow> bool" where
  "piecesOK s \<longleftrightarrow> (\<forall>t. currentTetromino s = Some t \<longrightarrow> okPiece t)
                 \<and> (\<forall>t. nextTetromino s = Some t \<longrightarrow> okPiece t)
                 \<and> (\<forall>t. heldElement s = Some t \<longrightarrow> okPiece t)"

definition playOK :: "State \<Rightarrow> bool" where
  "playOK s \<longleftrightarrow> gridOK (grid s) \<and> (\<forall>row\<in>set (grid s). \<not> fullRow row) \<and> piecesOK s"


text \<open>The fold of \<open>reduceState\<close> over a sequence of actions, each with the hash value
  of its draw; a hard drop gets 20 calls of fuel.\<close>

fun runActions :: "State \<Rightarrow> State \<Rightarrow> (Action \<times> int) list \<Rightarrow> (error + State) option" where
  "runActions init s [] = Some (Inr s)"
| "runActions init s ((a, h) # rest) =
     (case reduceState init 20 h s a of
        Some (Inr s') \<Rightarrow> runActions init s' rest
      | other \<Rightarrow> other)"

text \<open>A round: five square pieces, moved and dropped so that they fill the two bottom
  rows of an empty grid. Every draw has the hash value 0, which selects the square.\<close>

definition fiveSquares :: "(Action \<times> int) list" where
  "fiveSquares =
     [(Move LEFT, 0), (Move LEFT, 0), (Move LEFT, 0), (Move LEFT, 0), (Drop, 0),
      (Move LEFT, 0), (Move LEFT, 0), (Drop, 0),
      (Drop, 0),
      (Move RIGHT, 0), (Move RIGHT, 0), (Drop, 0),
      (Move RIGHT, 0), (Move RIGHT, 0), (Move RIGHT, 0), (Move RIGHT, 0), (Drop, 0)]"

definition squareAt :: "int \<Rightarrow> int \<Rightarrow> Tetromino" where
  "squareAt c r = O_TETROMINO\<lparr>position := \<lparr>pos_x = c, pos_y = r\<rparr>\<rparr>"

definition blankPiece :: "int \<Rightarrow> Tetromino" where
  "blankPiece r = \<lparr>shapes = [[[0]]], position = \<lparr>pos_x = 4, pos_y = r\<rparr>,
                   color = ''grey'', rotation = 0\<rparr>"

definition afterFirstDrop :: State where
  "afterFirstDrop = (initialState 0 0)\<lparr>grid := replicate 18 (replicate 10 None) @
       [[None, None, None, None, Some ''yellow'', Some ''yellow'', None, None, None, None],
        [None, None, None, None, Some ''yellow'', Some ''yellow'', None, None, None, None]],
     speedMultiplier := 9\<rparr>"

definition landedBeforeClear :: State where
  "landedBeforeClear = (initialState 0 0)\<lparr>currentTetromino := Some (squareAt 8 18),
     grid := replicate 18 (replicate 10 None) @
       [[Some ''yellow'', Some ''yellow'', Some ''yellow'', Some ''yellow'', Some ''yellow'',
         Some ''yellow'', Some ''yellow'', Some ''yellow'', None, None],
        [Some ''yellow'', Some ''yellow'', Some ''yellow'', Some ''yellow'', Some ''yellow'',
         Some ''yellow'', Some ''yellow'', Some ''yellow'', None, None]],
     speedMultiplier := 9\<rparr>"





definition bladeAtWall :: State where
  "bladeAtWall = (initialState 0 0)\<lparr>currentTetromino :=
      Some (I_TETROMINO\<lparr>position := \<lparr>pos_x = 9, pos_y = 0\<rparr>, rotation := 3\<rparr>)\<rparr>"

section \<open>Rounding to a double\<close>

text \<open>The exponent that \<open>ilog2\<close> computes.\<close>

lemma log2up_bounds: "1 \<le> x \<Longrightarrow> 2 ^ log2up x \<le> x \<and> x < 2 ^ Suc (log2up x)"
proof (induction x rule: log2up.induct)
  case (1 x)
  show ?case
  proof (cases "2 \<le> x")
    case True
    then have "1 \<le> x / 2" by simp
    with 1(1)[OF True] have "2 ^ log2up (x / 2) \<le> x / 2 \<and> x / 2 < 2 ^ Suc (log2up (x / 2))" .
    moreover have "log2up x = Suc (log2up (x / 2))" using True by (subst log2up.simps) simp
    ultimately show ?thesis by simp
  next
    case False
    then have "log2up x = 0" by (subst log2up.simps) simp
    then show ?thesis using False 1(2) by simp
  qed
qed

lemma log2down_bounds:
  "0 < x \<Longrightarrow> x < 1 \<Longrightarrow> 1 \<le> x * 2 ^ log2down x \<and> x * 2 ^ log2down x < 2"
proof (induction x rule: log2down.induct)
  case (1 x)
  have c: "0 < x \<and> x < 1" using 1(2,3) by simp
  then have s: "log2down x = Suc (log2down (2 * x))" by (subst log2down.simps) simp
  show ?case
  proof (cases "2 * x < 1")
    case True
    have "0 < 2 * x" using c by simp
    from 1(1)[OF c this True] show ?thesis unfolding s by (simp add: mult.assoc mult.commute mult.left_commute)
  next
    case False
    then have "log2down (2 * x) = 0" by (subst log2down.simps) simp
    then show ?thesis unfolding s using False c by simp
  qed
qed

lemma ilog2_bounds:
  assumes "0 < x"
  shows "2 powi ilog2 x \<le> x \<and> x < 2 powi (ilog2 x + 1)"
proof (cases "1 \<le> x")
  case True
  have "int (log2up x) + 1 = int (Suc (log2up x))" by simp
  then have "(2::rat) powi (int (log2up x) + 1) = 2 ^ Suc (log2up x)"
    by (simp only: power_int_of_nat)
  then show ?thesis using log2up_bounds[OF True] True
    by (simp only: ilog2_def if_True power_int_of_nat)
next
  case False
  then have lt: "x < 1" by simp
  let ?k = "log2down x"
  have p: "(0::rat) < 2 ^ ?k" by simp
  have b: "1 \<le> x * 2 ^ ?k" "x * 2 ^ ?k < 2" using log2down_bounds[OF assms lt] by simp_all
  have e1: "(2::rat) powi (- int ?k) = 1 / 2 ^ ?k"
    by (simp only: power_int_minus_divide power_int_of_nat)
  have e2: "(2::rat) powi (- int ?k + 1) = 2 / 2 ^ ?k"
    by (subst power_int_add_1) (simp_all add: e1)
  have "1 / 2 ^ ?k \<le> x" using b(1) p by (simp add: divide_le_eq)
  moreover have "x < 2 / 2 ^ ?k" using b(2) p by (simp add: less_divide_eq)
  ultimately show ?thesis using False by (simp only: ilog2_def if_False e1 e2 simp_thms)
qed

lemma pow2_less_exp: "(2::rat) powi a \<le> x \<Longrightarrow> x < 2 powi b \<Longrightarrow> a < b"
proof (rule ccontr)
  assume h: "2 powi a \<le> x" "x < 2 powi b" and "\<not> a < b"
  then have "b \<le> a" by simp
  then have "(2::rat) powi b \<le> 2 powi a" by (rule power_int_increasing) simp
  with h show False by simp
qed

lemma ilog2_eq:
  assumes "2 powi e \<le> x" "x < 2 powi (e + 1)"
  shows "ilog2 x = e"
proof -
  have "(0::rat) < 2 powi e" by (rule zero_less_power_int) simp
  then have "0 < x" using assms(1) by (rule less_le_trans)
  from ilog2_bounds[OF this] have b: "2 powi ilog2 x \<le> x" "x < 2 powi (ilog2 x + 1)" by simp_all
  have "ilog2 x < e + 1" using pow2_less_exp[OF b(1) assms(2)] .
  moreover have "e < ilog2 x + 1" using pow2_less_exp[OF assms(1) b(2)] .
  ultimately show ?thesis by simp
qed

lemma ilog2_less: "0 < x \<Longrightarrow> x < 2 powi N \<Longrightarrow> ilog2 x < N"
  using ilog2_bounds[of x] pow2_less_exp[of "ilog2 x" x N] by simp

lemma ilog2_ge:
  assumes "2 powi N \<le> x" shows "N \<le> ilog2 x"
proof -
  have "(0::rat) < 2 powi N" by (rule zero_less_power_int) simp
  then have "0 < x" using assms(1) by (rule less_le_trans)
  from ilog2_bounds[OF this] have "x < 2 powi (ilog2 x + 1)" by simp
  from pow2_less_exp[OF assms this] show ?thesis by simp
qed

lemma roundHalfEven_ge_floor: "\<lfloor>y\<rfloor> \<le> roundHalfEven y"
  by (simp add: roundHalfEven_def Let_def)

lemma roundHalfEven_le_floor: "roundHalfEven y \<le> \<lfloor>y\<rfloor> + 1"
  by (simp add: roundHalfEven_def Let_def)

lemma roundHalfEven_of_int: "roundHalfEven (of_int k) = k"
  by (simp add: roundHalfEven_def Let_def)

lemma roundHalfEven_ge: "of_int k \<le> y \<Longrightarrow> k \<le> roundHalfEven y"
  using roundHalfEven_ge_floor[of y] by (simp add: le_floor_iff[symmetric])

lemma roundHalfEven_le:
  assumes "y \<le> of_int k" shows "roundHalfEven y \<le> k"
proof (cases "y = of_int k")
  case True then show ?thesis by (simp add: roundHalfEven_of_int)
next
  case False
  then have "y < of_int k" using assms by simp
  then have "\<lfloor>y\<rfloor> < k" by (simp add: floor_less_iff)
  then show ?thesis using roundHalfEven_le_floor[of y] by simp
qed

text \<open>A point of a coarser grid is a point of every finer grid.\<close>

lemma grid_refine:
  assumes "e \<le> j"
  shows "\<exists>K. of_int k * (2::rat) powi j = of_int K * 2 powi e"
proof -
  have "j = int (nat (j - e)) + e" using assms by simp
  then have "(2::rat) powi j = 2 powi int (nat (j - e)) * 2 powi e"
    by (metis power_int_add zero_neq_numeral)
  then have "(2::rat) powi j = of_int (2 ^ nat (j - e)) * 2 powi e"
    by (simp only: power_int_of_nat of_int_power of_int_numeral)
  then have "of_int k * (2::rat) powi j = of_int (k * 2 ^ nat (j - e)) * 2 powi e"
    by (simp only: of_int_mult mult.assoc)
  then show ?thesis ..
qed

text \<open>The unit in the last place used by \<open>roundToDouble\<close> is at most \<open>2^(N - 53)\<close> when
  \<open>\<bar>x\<bar> < 2^N\<close>.\<close>

lemma roundToDouble_unit:
  assumes "\<bar>x\<bar> < 2 powi N" "- 1021 \<le> N" "N - 53 \<le> j"
  shows "\<exists>e. e \<le> j \<and> roundToDouble x = of_int (roundHalfEven (x / 2 powi e)) * 2 powi e"
proof (cases "x = 0")
  case True
  then have "roundToDouble x = of_int (roundHalfEven (x / 2 powi j)) * 2 powi j"
    by (simp add: roundToDouble_def roundHalfEven_def)
  then show ?thesis by blast
next
  case False
  then have "0 < \<bar>x\<bar>" by simp
  from ilog2_less[OF this assms(1)] have "ilog2 \<bar>x\<bar> < N" .
  then have "max (ilog2 \<bar>x\<bar>) (- 1022) - 52 \<le> j" using assms(2,3) by simp
  moreover have "roundToDouble x =
      of_int (roundHalfEven (x / 2 powi (max (ilog2 \<bar>x\<bar>) (- 1022) - 52)))
        * 2 powi (max (ilog2 \<bar>x\<bar>) (- 1022) - 52)"
    using False by (simp add: roundToDouble_def Let_def)
  ultimately show ?thesis by blast
qed

lemma roundToDouble_le:
  assumes "\<bar>x\<bar> < 2 powi N" "- 1021 \<le> N" "N - 53 \<le> j" "x \<le> of_int k * 2 powi j"
  shows "roundToDouble x \<le> of_int k * 2 powi j"
proof -
  from roundToDouble_unit[OF assms(1-3)] obtain e where
    e: "e \<le> j" "roundToDouble x = of_int (roundHalfEven (x / 2 powi e)) * 2 powi e" by blast
  from grid_refine[OF e(1)] obtain K where K: "of_int k * (2::rat) powi j = of_int K * 2 powi e"
    by blast
  have u: "(0::rat) < 2 powi e" by (rule zero_less_power_int) simp
  have "x \<le> of_int K * 2 powi e" using assms(4) K by simp
  then have "x / 2 powi e \<le> of_int K" using u by (simp add: divide_le_eq)
  then have "roundHalfEven (x / 2 powi e) \<le> K" by (rule roundHalfEven_le)
  then have "(of_int (roundHalfEven (x / 2 powi e)) :: rat) \<le> of_int K" by simp
  then have "of_int (roundHalfEven (x / 2 powi e)) * 2 powi e \<le> of_int K * (2::rat) powi e"
    using u by (simp only: mult_le_cancel_right_pos)
  then show ?thesis using e(2) K by simp
qed

lemma roundToDouble_ge:
  assumes "\<bar>x\<bar> < 2 powi N" "- 1021 \<le> N" "N - 53 \<le> j" "of_int k * 2 powi j \<le> x"
  shows "of_int k * 2 powi j \<le> roundToDouble x"
proof -
  from roundToDouble_unit[OF assms(1-3)] obtain e where
    e: "e \<le> j" "roundToDouble x = of_int (roundHalfEven (x / 2 powi e)) * 2 powi e" by blast
  from grid_refine[OF e(1)] obtain K where K: "of_int k * (2::rat) powi j = of_int K * 2 powi e"
    by blast
  have u: "(0::rat) < 2 powi e" by (rule zero_less_power_int) simp
  have "of_int K * 2 powi e \<le> x" using assms(4) K by simp
  then have "of_int K \<le> x / 2 powi e" using u by (simp add: le_divide_eq)
  then have "K \<le> roundHalfEven (x / 2 powi e)" by (rule roundHalfEven_ge)
  then have "(of_int K :: rat) \<le> of_int (roundHalfEven (x / 2 powi e))" by simp
  then have "of_int K * (2::rat) powi e \<le> of_int (roundHalfEven (x / 2 powi e)) * 2 powi e"
    using u by (simp only: mult_le_cancel_right_pos)
  then show ?thesis using e(2) K by simp
qed

lemma roundToDouble_exact:
  assumes "\<bar>x\<bar> < 2 powi N" "- 1021 \<le> N" "N - 53 \<le> j" "x = of_int k * 2 powi j"
  shows "roundToDouble x = x"
  using roundToDouble_le[OF assms(1-3), of k] roundToDouble_ge[OF assms(1-3), of k] assms(4)
  by simp

lemma fl_finite:
  assumes "\<bar>x\<bar> < 2 powi N" "- 1021 \<le> N" "N \<le> 1023"
  shows "fl x = Some (roundToDouble x)"
proof -
  have "x \<le> of_int 1 * 2 powi N" "of_int (- 1) * 2 powi N \<le> x" using assms(1) by simp_all
  from roundToDouble_le[OF assms(1,2) _ this(1)] roundToDouble_ge[OF assms(1,2) _ this(2)]
  have "\<bar>roundToDouble x\<bar> \<le> 2 powi N" by simp
  also have "(2::rat) powi N \<le> 2 powi 1023" using assms(3) by (rule power_int_increasing) simp
  also have "(2::rat) powi 1023 < 2 powi 1024" by (rule power_int_strict_increasing) simp_all
  also have "(2::rat) powi 1024 = 2 ^ 1024" by (rule power_int_numeral)
  finally show ?thesis by (simp add: fl_def Let_def)
qed

lemma fl_of_int:
  assumes "\<bar>k\<bar> < 2 ^ 53"
  shows "fl (of_int k) = Some (of_int k)"
proof -
  have "(of_int \<bar>k\<bar> :: rat) < of_int (2 ^ 53)" using assms by (simp only: of_int_less_iff)
  then have b: "\<bar>of_int k :: rat\<bar> < 2 powi 53" by simp
  have "roundToDouble (of_int k) = of_int k"
    by (rule roundToDouble_exact[OF b, of 0 k]) simp_all
  moreover have "fl (of_int k) = Some (roundToDouble (of_int k))"
    by (rule fl_finite[OF b]) simp_all
  ultimately show ?thesis by simp
qed

text \<open>Rounding at a known exponent.\<close>

lemma roundToDouble_at:
  assumes "2 powi e \<le> \<bar>x\<bar>" "\<bar>x\<bar> < 2 powi (e + 1)" "- 1022 \<le> e"
  shows "roundToDouble x = of_int (roundHalfEven (x / 2 powi (e - 52))) * 2 powi (e - 52)"
proof -
  have "(0::rat) < 2 powi e" by (rule zero_less_power_int) simp
  then have "0 < \<bar>x\<bar>" using assms(1) by (rule less_le_trans)
  then have "x \<noteq> 0" by simp
  moreover have "ilog2 \<bar>x\<bar> = e" using assms(1,2) by (rule ilog2_eq)
  ultimately show ?thesis using assms(3) by (simp add: roundToDouble_def Let_def)
qed

lemma fl_at:
  assumes "2 powi e \<le> \<bar>x\<bar>" "\<bar>x\<bar> < 2 powi (e + 1)" "- 1022 \<le> e" "e \<le> 1022"
  shows "fl x = Some (of_int (roundHalfEven (x / 2 powi (e - 52))) * 2 powi (e - 52))"
proof -
  have "fl x = Some (roundToDouble x)"
    by (rule fl_finite[OF assms(2)]) (use assms(3,4) in simp_all)
  then show ?thesis by (simp only: roundToDouble_at[OF assms(1-3)])
qed

lemma fl_0: "fl 0 = Some 0"
  by (simp add: fl_def roundToDouble_def)

lemma floor_rat_numeral: "\<lfloor>(numeral a :: rat) / numeral b\<rfloor> = numeral a div numeral b"
  using floor_divide_of_int_eq[of "numeral a" "numeral b", where ?'a = rat] by simp

section \<open>Scoring table\<close>

lemma score_product:
  assumes "\<bar>lvl\<bar> < 2 ^ 42" "0 \<le> v" "v \<le> 1200"
  shows "do { l \<leftarrow> fadd (of_int lvl) 1; fmul l (of_int v) } = Some (of_int ((lvl + 1) * v))"
proof -
  have l: "\<bar>lvl + 1\<bar> \<le> 2 ^ 42" using assms(1) by simp
  then have "\<bar>lvl + 1\<bar> < 2 ^ 53" by simp
  then have "fl (of_int (lvl + 1)) = Some (of_int (lvl + 1))" by (rule fl_of_int)
  then have a: "fadd (of_int lvl) 1 = Some (of_int (lvl + 1))" by (simp add: fadd_def)
  have "\<bar>lvl + 1\<bar> * \<bar>v\<bar> \<le> 2 ^ 42 * 1200"
    by (rule mult_mono) (use l assms(2,3) in simp_all)
  then have "\<bar>(lvl + 1) * v\<bar> < 2 ^ 53" by (simp add: abs_mult)
  then have "fl (of_int ((lvl + 1) * v)) = Some (of_int ((lvl + 1) * v))" by (rule fl_of_int)
  then have "fmul (of_int (lvl + 1)) (of_int v) = Some (of_int ((lvl + 1) * v))"
    by (simp add: fmul_def)
  then show ?thesis by (simp add: a)
qed

text \<open>
  Claim C2, amended. For every whole level of magnitude below \<open>2^42\<close> and every number
  of rows in 0..4, \<open>calculateScore\<close>, computed in double arithmetic, returns 0 for no
  rows and the exact product \<open>(level + 1) * L[rows - 1]\<close> with
  \<open>L = [40, 100, 300, 1200]\<close> otherwise; in particular 40 for (0, 1), 1200 for (0, 4),
  300 for (2, 2), and 0 for (any level, 0).
\<close>

theorem calculateScore_double_table:
  assumes "\<bar>lvl\<bar> < 2 ^ 42" "0 \<le> cleared" "cleared \<le> 4"
  shows "calculateScore_double (of_int lvl) cleared =
           Some (of_int (if cleared = 0 then 0
                         else (lvl + 1) * [40, 100, 300, 1200] ! nat (cleared - 1)))
         \<and> calculateScore_double 0 1 = Some 40 \<and> calculateScore_double 0 4 = Some 1200
         \<and> calculateScore_double 2 2 = Some 300 \<and> calculateScore_double l 0 = Some 0"
proof -
  have c: "cleared = 0 \<or> cleared = 1 \<or> cleared = 2 \<or> cleared = 3 \<or> cleared = 4"
    using assms(2,3) by arith
  have g: "calculateScore_double (of_int lvl) cleared =
           Some (of_int (if cleared = 0 then 0
                         else (lvl + 1) * [40, 100, 300, 1200] ! nat (cleared - 1)))"
    using c score_product[OF assms(1), of 40] score_product[OF assms(1), of 100]
      score_product[OF assms(1), of 300] score_product[OF assms(1), of 1200]
    by (auto simp: calculateScore_double_def js_index_def scores_def)
  have "calculateScore_double (of_int 0) 1 = Some (of_int ((0 + 1) * 40))"
    using score_product[of 0 40] by (simp add: calculateScore_double_def js_index_def scores_def)
  moreover have "calculateScore_double (of_int 0) 4 = Some (of_int ((0 + 1) * 1200))"
    using score_product[of 0 1200] by (simp add: calculateScore_double_def js_index_def scores_def)
  moreover have "calculateScore_double (of_int 2) 2 = Some (of_int ((2 + 1) * 100))"
    using score_product[of 2 100] by (simp add: calculateScore_double_def js_index_def scores_def)
  moreover have "calculateScore_double l 0 = Some 0" by (simp add: calculateScore_double_def)
  ultimately show ?thesis using g by simp
qed

theorem calculateScore_double_table_witness:
  "\<bar>5::int\<bar> < 2 ^ 42 \<and> (0::int) \<le> 3 \<and> (3::int) \<le> 4
   \<and> calculateScore_double 5 3 = Some 1800"
  using calculateScore_double_table [of 5 3] by simp

text \<open>Without a bound on the level the product is not the exact one: at level \<open>2^53\<close>
  the sum \<open>level + 1\<close> is a tie and rounds to \<open>2^53\<close>, so one row scores
  \<open>2^53 * 40 = 360287970189639680\<close> and not \<open>(2^53 + 1) * 40 = 360287970189639720\<close>.\<close>

theorem calculateScore_double_rounds:
  "calculateScore_double 9007199254740992 1 = Some 360287970189639680
   \<and> calculateScore_double 9007199254740992 1 \<noteq> Some ((9007199254740992 + 1) * 40)"
proof -
  have "fl 9007199254740993 = Some 9007199254740992"
    by (subst fl_at[where e = 53]) (simp_all add: roundHalfEven_def Let_def floor_rat_numeral)
  moreover have "fl (9007199254740992 * 40) = Some 360287970189639680"
    by (subst fl_at[where e = 58]) (simp_all add: roundHalfEven_def Let_def floor_rat_numeral)
  ultimately show ?thesis
    by (simp add: calculateScore_double_def js_index_def scores_def fadd_def fmul_def)
qed

text \<open>The scoring of the game model, over the integers.\<close>

lemma calculateScore_Inr:
  "0 \<le> cleared \<Longrightarrow> cleared \<le> 4 \<Longrightarrow> \<exists>points. calculateScore lvl cleared = Inr points"
  by (auto simp: calculateScore_def js_index_def scores_def)

lemma calculateScore_Inl: "calculateScore lvl cleared = Inl e \<Longrightarrow> e = NotANumber"
  by (auto simp: calculateScore_def split: if_splits option.splits)

text \<open>For whole levels of magnitude below \<open>2^42\<close> the scoring in double arithmetic is
  the scoring over the integers: the same number, and \<open>NaN\<close> in the same cases.\<close>

lemma calculateScore_double_exact:
  assumes "\<bar>lvl\<bar> < 2 ^ 42"
  shows "calculateScore_double (of_int lvl) cleared =
           (case calculateScore lvl cleared of Inl e \<Rightarrow> None | Inr v \<Rightarrow> Some (of_int v))"
proof (cases "cleared = 0")
  case True
  then show ?thesis by (simp add: calculateScore_double_def calculateScore_def)
next
  case False
  show ?thesis
  proof (cases "js_index scores (cleared - 1)")
    case None
    then show ?thesis using False by (simp add: calculateScore_double_def calculateScore_def)
  next
    case (Some v)
    then have "v \<in> set scores" by (auto simp: js_index_def split: if_splits)
    then have "0 \<le> v" "v \<le> 1200" by (auto simp: scores_def)
    from score_product[OF assms this] show ?thesis
      using False Some by (simp add: calculateScore_double_def calculateScore_def)
  qed
qed

section \<open>Random integers\<close>

text \<open>From \<open>2^53\<close> on every double is an even whole number.\<close>

lemma roundToDouble_even:
  assumes "2 ^ 53 \<le> x"
  shows "\<exists>k. roundToDouble x = of_int (2 * k)"
proof -
  have p: "(2::rat) powi 53 \<le> \<bar>x\<bar>" using assms by simp
  then have "53 \<le> ilog2 \<bar>x\<bar>" by (rule ilog2_ge)
  then have e: "1 \<le> max (ilog2 \<bar>x\<bar>) (- 1022) - 52" by simp
  have "x \<noteq> 0" using assms by auto
  then have r: "roundToDouble x =
      of_int (roundHalfEven (x / 2 powi (max (ilog2 \<bar>x\<bar>) (- 1022) - 52)))
        * 2 powi (max (ilog2 \<bar>x\<bar>) (- 1022) - 52)"
    by (simp add: roundToDouble_def Let_def)
  from grid_refine[OF e] obtain K where
    "of_int (roundHalfEven (x / 2 powi (max (ilog2 \<bar>x\<bar>) (- 1022) - 52)))
        * (2::rat) powi (max (ilog2 \<bar>x\<bar>) (- 1022) - 52) = of_int K * 2 powi 1"
    by blast
  with r have "roundToDouble x = of_int (2 * K)" by simp
  then show ?thesis ..
qed

lemma frem_of_int:
  assumes "0 \<le> X" "0 < M"
  shows "frem (of_int X) (of_int M) = Some (of_int (X mod M))"
proof -
  have "(0::rat) \<le> of_int X / of_int M" using assms by simp
  moreover have "(of_int M :: rat) \<noteq> 0" using assms by simp
  moreover have "(of_int X :: rat) - of_int M * of_int (X div M) = of_int (X mod M)"
    by (simp only: of_int_mult[symmetric] of_int_diff[symmetric] minus_mult_div_eq_mod)
  ultimately show ?thesis by (simp only: frem_def if_True if_False floor_divide_of_int_eq)
qed

text \<open>In exact arithmetic the hash is \<open>2^31 - 1\<close> only for seeds congruent to 230538014
  modulo \<open>2^31\<close>; 1857678181 is the inverse of the multiplier.\<close>

lemma lcg_not_top:
  assumes "0 \<le> s" "s \<le> 8162278"
  shows "(1103515245 * s + 12345) mod 2147483648 \<noteq> (2147483647::int)"
proof
  assume h: "(1103515245 * s + 12345) mod 2147483648 = (2147483647::int)"
  have "(1857678181 * ((1103515245 * s + 12345) mod 2147483648)) mod 2147483648
        = (1857678181 * (1103515245 * s + 12345)) mod (2147483648::int)"
    by (rule mod_mult_right_eq)
  then have "(1857678181 * (1103515245 * s + 12345)) mod (2147483648::int) = 289805467"
    by (simp only: h) simp
  moreover have "1857678181 * (1103515245 * s + 12345)
        = (s + 59267453) + 2147483648 * (954594553 * s + 10679)" by simp
  ultimately have "((s + 59267453) + 2147483648 * (954594553 * s + 10679)) mod 2147483648 = 289805467"
    by simp
  then have "(s + 59267453) mod 2147483648 = 289805467"
    by (simp only: mod_mult_self2)
  moreover have "(s + 59267453) mod 2147483648 = s + 59267453"
    using assms by simp
  ultimately show False using assms by simp
qed

lemma RNG_hash_range:
  assumes "0 \<le> seed" "seed < 2 ^ 53"
  shows "\<exists>H. RNG_hash (of_int seed) = Some (of_int H) \<and> 0 \<le> H \<and> H \<le> 2147483646"
proof -
  let ?A = "1103515245 * seed"
  let ?P = "of_int ?A :: rat"
  define p where "p = roundToDouble ?P"
  define s where "s = roundToDouble (p + 12345)"
  have A0: "0 \<le> ?A" using assms(1) by simp
  have "?A \<le> 1103515245 * 2 ^ 53" using assms(2) by simp
  then have A1: "?A < 2 ^ 84" by simp
  have "?P < of_int (2 ^ 84)" using A1 by (simp only: of_int_less_iff)
  then have P1: "\<bar>?P\<bar> < 2 powi 84" using A0 by simp
  have flP: "fl ?P = Some p" unfolding p_def by (rule fl_finite[OF P1]) simp_all
  have "of_int 0 * 2 powi 31 \<le> ?P" using A0 by simp
  from roundToDouble_ge[OF P1 _ _ this] have p0: "0 \<le> p" by (simp add: p_def)
  have "?P \<le> of_int 1 * 2 powi 84" using P1 by simp
  from roundToDouble_le[OF P1 _ _ this] have p1: "p \<le> 2 powi 84" by (simp add: p_def)
  have "(2::rat) powi 84 + 12345 < 2 powi 85" by simp
  then have S1: "\<bar>p + 12345\<bar> < 2 powi 85" using p0 p1 by simp
  have flS: "fl (p + 12345) = Some s" unfolding s_def by (rule fl_finite[OF S1]) simp_all
  have hash: "RNG_hash (of_int seed) = frem s 2147483648"
    using flP flS by (simp add: RNG_hash_def RNG_a_def RNG_c_def RNG_m_def fmul_def fadd_def)
  show ?thesis
  proof (cases "?A + 12345 < 2 ^ 53")
    case True
    then have "\<bar>?A\<bar> < 2 ^ 53" using A0 by simp
    then have "fl ?P = Some ?P" by (rule fl_of_int)
    then have p: "p = ?P" using flP by simp
    have "\<bar>?A + 12345\<bar> < 2 ^ 53" using True A0 by simp
    then have "fl (of_int (?A + 12345)) = Some (of_int (?A + 12345))" by (rule fl_of_int)
    then have s: "s = of_int (?A + 12345)" using flS p by simp
    have "frem (of_int (?A + 12345)) (of_int 2147483648)
          = Some (of_int ((?A + 12345) mod 2147483648))"
      by (rule frem_of_int) (use A0 in simp_all)
    then have h: "RNG_hash (of_int seed) = Some (of_int ((?A + 12345) mod 2147483648))"
      using hash s by simp
    have "seed \<le> 8162278" using True by simp
    from lcg_not_top[OF assms(1) this]
    have "(?A + 12345) mod 2147483648 \<noteq> 2147483647" .
    moreover have "(?A + 12345) mod 2147483648 < 2147483648" by simp
    moreover have "0 \<le> (?A + 12345) mod 2147483648" by simp
    ultimately have "0 \<le> (?A + 12345) mod 2147483648 \<and> (?A + 12345) mod 2147483648 \<le> 2147483646"
      by linarith
    with h show ?thesis by blast
  next
    case False
    have big: "2 ^ 53 \<le> p + 12345"
    proof (cases "?A < 2 ^ 53")
      case True
      then have "\<bar>?A\<bar> < 2 ^ 53" using A0 by simp
      then have "fl ?P = Some ?P" by (rule fl_of_int)
      then have "p = ?P" using flP by simp
      moreover have "(of_int (2 ^ 53) :: rat) \<le> of_int (?A + 12345)"
        using False by (simp only: of_int_le_iff)
      ultimately show ?thesis by simp
    next
      case F: False
      then have "(of_int (2 ^ 53) :: rat) \<le> ?P" by (simp only: of_int_le_iff)
      then have "of_int 1 * 2 powi 53 \<le> ?P" by simp
      from roundToDouble_ge[OF P1 _ _ this] have "2 powi 53 \<le> p" by (simp add: p_def)
      then show ?thesis by simp
    qed
    from roundToDouble_even[OF this] obtain k where k: "s = of_int (2 * k)"
      unfolding s_def by blast
    have "of_int 0 * 2 powi 32 \<le> p + 12345" using p0 by simp
    from roundToDouble_ge[OF S1 _ _ this] have "0 \<le> s" by (simp add: s_def)
    then have "(of_int 0 :: rat) \<le> of_int (2 * k)" using k by simp
    then have k0: "0 \<le> 2 * k" by (simp only: of_int_le_iff)
    have "frem (of_int (2 * k)) (of_int 2147483648) = Some (of_int ((2 * k) mod 2147483648))"
      by (rule frem_of_int) (use k0 in simp_all)
    then have h: "RNG_hash (of_int seed) = Some (of_int ((2 * k) mod 2147483648))"
      using hash k by simp
    have "(2 * k) mod 2147483648 = 2 * (k mod 1073741824)"
      using mult_mod_right[of 2 k 1073741824] by simp
    moreover have "k mod 1073741824 < 1073741824" "0 \<le> k mod 1073741824" by simp_all
    ultimately have "0 \<le> (2 * k) mod 2147483648 \<and> (2 * k) mod 2147483648 \<le> 2147483646"
      by linarith
    with h show ?thesis by blast
  qed
qed

text \<open>The clock value 1762000000000 (1 November 2025): the product \<open>a * seed\<close> is
  about \<open>2^70.7\<close> and is rounded to a multiple of \<open>2^18\<close>.\<close>

lemma RNG_hash_example: "RNG_hash 1762000000000 = Some 1785987072"
proof -
  have "fl 1944393861690000000000 = Some 1944393861689999884288"
    by (subst fl_at[where e = 70]) (simp_all add: roundHalfEven_def Let_def floor_rat_numeral)
  moreover have "fl 1944393861689999896633 = Some 1944393861689999884288"
    by (subst fl_at[where e = 70]) (simp_all add: roundHalfEven_def Let_def floor_rat_numeral)
  ultimately show ?thesis
    by (simp add: RNG_hash_def RNG_a_def RNG_c_def RNG_m_def fmul_def fadd_def frem_def
        floor_rat_numeral)
qed

lemma RNG_m_minus_1: "fsub (of_int RNG_m) 1 = Some 2147483647"
  using fl_of_int[of 2147483647] by (simp add: fsub_def RNG_m_def)

lemma scale_example: "fdiv 1785987072 2147483647 = Some (14630806100637 / 17592186044416)"
proof -
  have "fl (1785987072 / 2147483647) = Some (14630806100637 / 17592186044416)"
    by (subst fl_at[where e = "- 1"]) (simp_all add: roundHalfEven_def Let_def floor_rat_numeral)
  then show ?thesis by (simp add: fdiv_def)
qed

lemma randomInt_double_example: "randomInt_double 1762000000000 0 6 = Some 5"
proof -
  have "fsub 6 0 = Some 6" using fl_of_int[of 6] by (simp add: fsub_def)
  moreover have "fadd 6 1 = Some 7" using fl_of_int[of 7] by (simp add: fadd_def)
  moreover have p: "fl (102415642704459 / 17592186044416) = Some (102415642704459 / 17592186044416)"
    by (subst fl_at[where e = 2]) (simp_all add: roundHalfEven_def Let_def floor_rat_numeral)
  then have "fmul (14630806100637 / 17592186044416) 7 = Some (102415642704459 / 17592186044416)"
    by (simp add: fmul_def)
  moreover have "fadd 0 (102415642704459 / 17592186044416) = Some (102415642704459 / 17592186044416)"
    using p by (simp add: fadd_def)
  ultimately show ?thesis
    by (simp add: randomInt_double_def RNG_hash_example RNG_m_minus_1 scale_example
        floor_rat_numeral)
qed

text \<open>
  Claim C6, amended. For every clock value \<open>now\<close>, a whole number of milliseconds with
  \<open>0 \<le> now < 2^53\<close>, the hash \<open>(a * now + c) % m\<close> computed in double arithmetic is a
  whole number in \<open>[0, 2^31 - 2]\<close>, and for all whole \<open>min \<le> max\<close> between \<open>-2^20\<close>
  and \<open>2^20\<close>, \<open>randomInt(min, max)\<close>, computed in double arithmetic as
  \<open>floor(min + (hash / (2^31 - 1)) * (max - min + 1))\<close>, is an integer in
  \<open>[min, max]\<close>.
\<close>

theorem randomInt_double_in_range:
  assumes "0 \<le> now" "now < 2 ^ 53" "min_v \<le> max_v" "- (2 ^ 20) \<le> min_v" "max_v \<le> 2 ^ 20"
  shows "(\<exists>h. RNG_hash (of_int now) = Some (of_int h) \<and> 0 \<le> h \<and> h < RNG_m - 1)
       \<and> (\<exists>r. randomInt_double (of_int now) (of_int min_v) (of_int max_v) = Some r
                \<and> min_v \<le> r \<and> r \<le> max_v)"
proof -
  from RNG_hash_range[OF assms(1,2)] obtain H where
    H: "RNG_hash (of_int now) = Some (of_int H)" "0 \<le> H" "H \<le> 2147483646" by blast
  have g: "(2::rat) powi (- 31) = 1 / 2147483648" by (simp add: power_int_minus_divide)
  note m1 = RNG_m_minus_1
  \<comment> \<open>\<open>scale = hash / (RNG.m - 1)\<close>\<close>
  let ?q = "of_int H / 2147483647 :: rat"
  define scale where "scale = roundToDouble ?q"
  have Hr: "(0::rat) \<le> of_int H" "(of_int H :: rat) \<le> 2147483646" using H(2,3) by simp_all
  have q0: "0 \<le> ?q" using Hr(1) by simp
  have "?q \<le> 2147483646 / 2147483647" using Hr(2) by (simp add: divide_right_mono)
  also have "\<dots> \<le> (2147483647 / 2147483648 :: rat)" by simp
  finally have q1: "?q \<le> of_int 2147483647 * 2 powi (- 31)" by (simp add: g)
  have qN: "\<bar>?q\<bar> < 2 powi 0" using q0 q1 by (simp add: g)
  have "fl ?q = Some scale" unfolding scale_def by (rule fl_finite[OF qN]) simp_all
  then have sc: "fdiv (of_int H) 2147483647 = Some scale" by (simp add: fdiv_def)
  have "of_int 0 * 2 powi 0 \<le> ?q" using q0 by simp
  from roundToDouble_ge[OF qN _ _ this] have s0: "0 \<le> scale" by (simp add: scale_def)
  from roundToDouble_le[OF qN _ _ q1] have s1: "scale \<le> 2147483647 / 2147483648"
    by (simp add: scale_def g)
  \<comment> \<open>\<open>max - min + 1\<close>\<close>
  let ?n = "max_v - min_v + 1"
  define n :: rat where "n = of_int ?n"
  have nb: "1 \<le> ?n" "?n \<le> 2 ^ 21 + 1" using assms(3,4,5) by simp_all
  have "\<bar>max_v - min_v\<bar> < 2 ^ 53" using assms(3,4,5) by simp
  then have "fl (of_int (max_v - min_v)) = Some (of_int (max_v - min_v))" by (rule fl_of_int)
  then have d: "fsub (of_int max_v) (of_int min_v) = Some (of_int max_v - of_int min_v)"
    by (simp add: fsub_def)
  have "\<bar>?n\<bar> < 2 ^ 53" using nb by simp
  then have "fl (of_int ?n) = Some (of_int ?n)" by (rule fl_of_int)
  then have nn: "fadd (of_int max_v - of_int min_v) 1 = Some n" by (simp add: fadd_def n_def)
  have "(of_int 1 :: rat) \<le> of_int ?n" "(of_int ?n :: rat) \<le> of_int (2 ^ 21 + 1)"
    using nb by (simp_all only: of_int_le_iff)
  then have nr: "1 \<le> n" "n \<le> 2 ^ 21 + 1" by (simp_all add: n_def)
  have ne: "of_int min_v + n = of_int max_v + 1" by (simp add: n_def)
  \<comment> \<open>\<open>scale * (max - min + 1)\<close>\<close>
  let ?x = "scale * n"
  define p where "p = roundToDouble ?x"
  have x0: "0 \<le> ?x" using s0 nr(1) by simp
  have x1': "?x \<le> 2147483647 / 2147483648 * n"
    using s1 by (rule mult_right_mono) (use nr(1) in simp)
  have e1: "(of_int (?n * 2147483647) :: rat) = n * 2147483647"
    by (simp only: of_int_mult of_int_numeral n_def)
  have "2147483647 / 2147483648 * n = of_int (?n * 2147483647) * 2 powi (- 31)"
    unfolding e1 g by simp
  with x1' have x1: "?x \<le> of_int (?n * 2147483647) * 2 powi (- 31)" by simp
  have "2147483647 / 2147483648 * n \<le> 1 * n"
    by (rule mult_right_mono) (use nr(1) in simp_all)
  with x1' have "?x \<le> 2 ^ 21 + 1" using nr(2) by simp
  then have xN: "\<bar>?x\<bar> < 2 powi 22" using x0 by simp
  have "fl ?x = Some p" unfolding p_def by (rule fl_finite[OF xN]) simp_all
  then have pp: "fmul scale n = Some p" by (simp add: fmul_def)
  have "of_int 0 * 2 powi 0 \<le> ?x" using x0 by simp
  from roundToDouble_ge[OF xN _ _ this] have p0: "0 \<le> p" by (simp add: p_def)
  from roundToDouble_le[OF xN _ _ x1] have "p \<le> of_int (?n * 2147483647) * 2 powi (- 31)"
    by (simp add: p_def)
  also have "\<dots> = n - n / 2147483648" unfolding e1 g by simp
  also have "\<dots> \<le> n - 1 / 2147483648"
    using nr(1) by (simp add: divide_right_mono)
  finally have p1: "p \<le> n - 1 / 2147483648" .
  \<comment> \<open>\<open>min + scale * (max - min + 1)\<close>\<close>
  let ?y = "of_int min_v + p"
  define t where "t = roundToDouble ?y"
  have "(of_int (- (2 ^ 20)) :: rat) \<le> of_int min_v" "(of_int max_v :: rat) \<le> of_int (2 ^ 20)"
    using assms(4,5) by (simp_all only: of_int_le_iff)
  then have mr: "- (2 ^ 20) \<le> (of_int min_v :: rat)" "(of_int max_v :: rat) \<le> 2 ^ 20"
    by simp_all
  have "?y \<le> of_int min_v + n - 1 / 2147483648" using p1 by simp
  then have y1': "?y \<le> of_int max_v + 1 - 1 / 2147483648" by (simp only: ne)
  have "(of_int max_v :: rat) + 1 - 1 / 2147483648
        = of_int ((max_v + 1) * 2147483648 - 1) * 2 powi (- 31)"
    by (simp add: g)
  with y1' have y1: "?y \<le> of_int ((max_v + 1) * 2147483648 - 1) * 2 powi (- 31)" by simp
  have y0: "of_int min_v * 2 powi 0 \<le> ?y" using p0 by simp
  have "- (2 ^ 20) \<le> ?y" "?y \<le> 2 ^ 20 + 1" using y0 y1' mr by simp_all
  then have yN: "\<bar>?y\<bar> < 2 powi 22" by simp
  have "fl ?y = Some t" unfolding t_def by (rule fl_finite[OF yN]) simp_all
  then have tt: "fadd (of_int min_v) p = Some t" by (simp add: fadd_def)
  from roundToDouble_ge[OF yN _ _ y0] have t0: "of_int min_v \<le> t" by (simp add: t_def)
  from roundToDouble_le[OF yN _ _ y1]
  have "t \<le> of_int ((max_v + 1) * 2147483648 - 1) * 2 powi (- 31)" by (simp add: t_def)
  also have "\<dots> = of_int max_v + 1 - 1 / 2147483648" by (simp add: g)
  also have "\<dots> < of_int (max_v + 1)" by simp
  finally have t1: "t < of_int (max_v + 1)" .
  have "min_v \<le> \<lfloor>t\<rfloor>" using t0 by (simp only: le_floor_iff)
  moreover have "\<lfloor>t\<rfloor> < max_v + 1" using t1 by (simp only: floor_less_iff)
  moreover have "randomInt_double (of_int now) (of_int min_v) (of_int max_v) = Some \<lfloor>t\<rfloor>"
    by (simp add: randomInt_double_def H(1) m1 sc d nn pp tt)
  ultimately have "\<exists>r. randomInt_double (of_int now) (of_int min_v) (of_int max_v) = Some r
                \<and> min_v \<le> r \<and> r \<le> max_v" by simp
  moreover have "\<exists>h. RNG_hash (of_int now) = Some (of_int h) \<and> 0 \<le> h \<and> h < RNG_m - 1"
    using H by (auto simp: RNG_m_def)
  ultimately show ?thesis by simp
qed


theorem randomInt_double_in_range_witness:
  "(0::int) \<le> 1762000000000 \<and> (1762000000000::int) < 2 ^ 53 \<and> (0::int) \<le> 6
   \<and> - (2 ^ 20) \<le> (0::int) \<and> (6::int) \<le> 2 ^ 20
   \<and> (\<exists>h. RNG_hash 1762000000000 = Some (of_int h) \<and> 0 \<le> h \<and> h < RNG_m - 1)
   \<and> (\<exists>r. randomInt_double 1762000000000 0 6 = Some r \<and> 0 \<le> r \<and> r \<le> 6)
   \<and> randomInt_double 1762000000000 0 6 = Some 5"
  using randomInt_double_in_range [of 1762000000000 0 6] randomInt_double_example by simp

text \<open>Without a bound on \<open>min\<close> and \<open>max\<close> the result can leave the range. With
  \<open>min = max = 2^52 + 1\<close> the doubles around \<open>min + scale\<close> are the whole numbers, and
  the sum is rounded up to \<open>max + 1\<close> whenever \<open>scale \<ge> 1/2\<close>; at the clock value
  1762000000000, \<open>scale\<close> is about 0.83.\<close>

theorem randomInt_double_overshoots:
  "randomInt_double 1762000000000 4503599627370497 4503599627370497 = Some 4503599627370498"
proof -
  have "fsub 4503599627370497 4503599627370497 = Some 0" by (simp add: fsub_def fl_0)
  moreover have "fadd 0 1 = Some 1" using fl_of_int[of 1] by (simp add: fadd_def)
  moreover have "fl (14630806100637 / 17592186044416) = Some (14630806100637 / 17592186044416)"
    by (subst fl_at[where e = "- 1"]) (simp_all add: roundHalfEven_def Let_def floor_rat_numeral)
  then have "fmul (14630806100637 / 17592186044416) 1 = Some (14630806100637 / 17592186044416)"
    by (simp add: fmul_def)
  moreover have "fl (4503599627370497 + 14630806100637 / 17592186044416) = Some 4503599627370498"
    by (subst fl_at[where e = 52]) (simp_all add: roundHalfEven_def Let_def floor_rat_numeral)
  then have "fadd 4503599627370497 (14630806100637 / 17592186044416) = Some 4503599627370498"
    by (simp add: fadd_def)
  ultimately show ?thesis
    by (simp add: randomInt_double_def RNG_hash_example RNG_m_minus_1 scale_example)
qed

text \<open>
  Every draw of the game is \<open>randomInt(0, 6)\<close>. There the computation in double
  arithmetic from the clock value yields what the computation over the rationals
  yields from the hash of the clock value, which is the parameter \<open>h\<close> of the model of
  the game: the exact quotient \<open>7 * h / (2^31 - 1)\<close> is a whole number or at least
  \<open>2^(-31)\<close> away from one, and the rounding errors are below \<open>2^(-49)\<close>.
\<close>

lemma randomInt_div: "randomInt h a b = a + (h * (b - a + 1)) div (RNG_m - 1)"
proof -
  have e: "(of_int h :: rat) / of_int (RNG_m - 1) * of_int (b - a + 1)
        = of_int (h * (b - a + 1)) / of_int (RNG_m - 1)" by simp
  have "\<lfloor>(of_int a :: rat) + of_int (h * (b - a + 1)) / of_int (RNG_m - 1)\<rfloor>
        = a + \<lfloor>(of_int (h * (b - a + 1)) :: rat) / of_int (RNG_m - 1)\<rfloor>"
    by (rule floor_add_int[unfolded add.commute[of _ "of_int a"]] int_add_floor[symmetric])
  also have "\<dots> = a + (h * (b - a + 1)) div (RNG_m - 1)"
    by (simp only: floor_divide_of_int_eq)
  finally show ?thesis
    unfolding randomInt_def Let_def e .
qed

lemma draw_floor:
  assumes "0 \<le> H" "H \<le> 2147483646"
  shows "do { scale \<leftarrow> fdiv (of_int H) 2147483647; p \<leftarrow> fmul scale 7; t \<leftarrow> fadd 0 p; Some \<lfloor>t\<rfloor> }
         = Some ((H * 7) div 2147483647)"
proof -
  define k where "k = (H * 7) div 2147483647"
  have "H * 7 = 2147483647 * k + (H * 7) mod 2147483647" by (simp add: k_def)
  moreover have "0 \<le> (H * 7) mod 2147483647" "(H * 7) mod 2147483647 < 2147483647" by simp_all
  ultimately have kb: "2147483647 * k \<le> H * 7" "H * 7 < 2147483647 * k + 2147483647"
    by linarith+
  have k0: "0 \<le> k" "k \<le> 6" using kb assms by linarith+
  have g53: "(2::rat) powi (- 53) = 1 / 9007199254740992" by (simp add: power_int_minus_divide)
  have g50: "(2::rat) powi (- 50) = 1 / 1125899906842624" by (simp add: power_int_minus_divide)
  let ?q = "of_int H / 2147483647 :: rat"
  define scale where "scale = roundToDouble ?q"
  define p where "p = roundToDouble (scale * 7)"
  define t where "t = roundToDouble p"
  have Hr: "(0::rat) \<le> of_int H" "(of_int H :: rat) \<le> 2147483646" using assms by simp_all
  have q0: "0 \<le> ?q" using Hr(1) by simp
  have "?q \<le> 2147483646 / 2147483647" using Hr(2) by (simp add: divide_right_mono)
  then have q1: "?q < 1" by simp
  have qN: "\<bar>?q\<bar> < 2 powi 0" using q0 q1 by simp
  \<comment> \<open>a double between \<open>k / 7\<close> and the quotient\<close>
  define D where "D = (k * 9007199254740992 + 6) div 7"
  have "k * 9007199254740992 + 6 = 7 * D + (k * 9007199254740992 + 6) mod 7"
    by (simp add: D_def)
  moreover have "0 \<le> (k * 9007199254740992 + 6) mod 7" "(k * 9007199254740992 + 6) mod 7 < 7"
    by simp_all
  ultimately have Db: "k * 9007199254740992 \<le> 7 * D" "7 * D \<le> k * 9007199254740992 + 6"
    by linarith+
  have lo_int: "2147483647 * D \<le> 9007199254740992 * H"
  proof (cases "k = 0")
    case True
    then have "D = 0" by (simp add: D_def)
    then show ?thesis using assms(1) by simp
  next
    case False
    have "2147483647 * k \<noteq> H * 7"
    proof
      assume e: "2147483647 * k = H * 7"
      have "7 * (H - 306783378 * k) = H * 7 - 2147483646 * k" by (simp add: algebra_simps)
      also have "\<dots> = 2147483647 * k - 2147483646 * k" by (simp only: e)
      also have "\<dots> = k" by simp
      finally have "k = 7 * (H - 306783378 * k)" by simp
      then have "7 dvd k" by (rule dvdI)
      moreover have "0 < k" using False k0 by simp
      ultimately have "7 \<le> k" by (rule zdvd_imp_le)
      then show False using k0 by simp
    qed
    then have "2147483647 * k + 1 \<le> H * 7" using kb(1) by simp
    then show ?thesis using Db(2) by linarith
  qed
  have "(of_int (2147483647 * D) :: rat) \<le> of_int (9007199254740992 * H)"
    using lo_int by (simp only: of_int_le_iff)
  then have lo: "of_int D * 2 powi (- 53) \<le> ?q" by (simp add: g53 field_simps)
  \<comment> \<open>a double between the quotient and \<open>(k + 1 - 2^(-50)) / 7\<close>\<close>
  define E where "E = ((k + 1) * 9007199254740992 - 8) div 7"
  have "(k + 1) * 9007199254740992 - 8 = 7 * E + ((k + 1) * 9007199254740992 - 8) mod 7"
    by (simp add: E_def)
  moreover have "0 \<le> ((k + 1) * 9007199254740992 - 8) mod 7"
    "((k + 1) * 9007199254740992 - 8) mod 7 < 7" by simp_all
  ultimately have Eb: "7 * E \<le> (k + 1) * 9007199254740992 - 8"
    "(k + 1) * 9007199254740992 - 14 \<le> 7 * E" by linarith+
  have "k * 9007199254740992 + 9007199254740978 \<le> 7 * E" using Eb(2) by (simp add: algebra_simps)
  moreover have "H * 7 \<le> 2147483647 * k + 2147483646" using kb(2) by simp
  ultimately have hi_int: "9007199254740992 * H \<le> 2147483647 * E" by linarith
  have "(of_int (9007199254740992 * H) :: rat) \<le> of_int (2147483647 * E)"
    using hi_int by (simp only: of_int_le_iff)
  then have hi: "?q \<le> of_int E * 2 powi (- 53)" by (simp add: g53 field_simps)
  \<comment> \<open>\<open>scale\<close>\<close>
  have "fl ?q = Some scale" unfolding scale_def by (rule fl_finite[OF qN]) simp_all
  then have sc: "fdiv (of_int H) 2147483647 = Some scale" by (simp add: fdiv_def)
  from roundToDouble_ge[OF qN _ _ lo] have s_lo: "of_int D / 9007199254740992 \<le> scale"
    by (simp add: scale_def g53)
  from roundToDouble_le[OF qN _ _ hi] have s_hi: "scale \<le> of_int E / 9007199254740992"
    by (simp add: scale_def g53)
  \<comment> \<open>\<open>scale * 7\<close>\<close>
  have "(of_int (k * 9007199254740992) :: rat) \<le> of_int (7 * D)"
    using Db(1) by (simp only: of_int_le_iff)
  then have "(of_int k :: rat) \<le> 7 * (of_int D / 9007199254740992)" by simp
  also have "\<dots> \<le> 7 * scale" using s_lo by simp
  finally have x_lo: "of_int k * 2 powi 0 \<le> scale * 7" by (simp add: mult.commute)
  have "(of_int (7 * E) :: rat) \<le> of_int ((k + 1) * 9007199254740992 - 8)"
    using Eb(1) by (simp only: of_int_le_iff)
  then have "7 * (of_int E / 9007199254740992) \<le> (of_int k :: rat) + 1 - 1 / 1125899906842624"
    by (simp add: field_simps)
  moreover have "7 * scale \<le> 7 * (of_int E / 9007199254740992)" using s_hi by simp
  ultimately have x_hi': "scale * 7 \<le> of_int k + 1 - 1 / 1125899906842624"
    by (simp add: mult.commute)
  have gk: "of_int ((k + 1) * 1125899906842624 - 1) * 2 powi (- 50)
            = (of_int k :: rat) + 1 - 1 / 1125899906842624" by (simp add: g50 field_simps)
  have x_hi: "scale * 7 \<le> of_int ((k + 1) * 1125899906842624 - 1) * 2 powi (- 50)"
    using x_hi' by (simp only: gk)
  have kr: "(0::rat) \<le> of_int k" "(of_int k :: rat) \<le> 6" using k0 by simp_all
  have xN: "\<bar>scale * 7\<bar> < 2 powi 3" using x_lo x_hi' kr by simp
  have "fl (scale * 7) = Some p" unfolding p_def by (rule fl_finite[OF xN]) simp_all
  then have pp: "fmul scale 7 = Some p" by (simp add: fmul_def)
  from roundToDouble_ge[OF xN _ _ x_lo] have p_lo: "of_int k * 2 powi 0 \<le> p"
    by (simp add: p_def)
  from roundToDouble_le[OF xN _ _ x_hi]
  have p_hi: "p \<le> of_int ((k + 1) * 1125899906842624 - 1) * 2 powi (- 50)"
    by (simp add: p_def)
  \<comment> \<open>\<open>0 + scale * 7\<close>\<close>
  have pN: "\<bar>p\<bar> < 2 powi 3" using p_lo p_hi kr unfolding gk by simp
  have "fl p = Some t" unfolding t_def by (rule fl_finite[OF pN]) simp_all
  then have tt: "fadd 0 p = Some t" by (simp add: fadd_def)
  from roundToDouble_ge[OF pN _ _ p_lo] have t_lo: "of_int k \<le> t" by (simp add: t_def)
  from roundToDouble_le[OF pN _ _ p_hi] have "t \<le> of_int k + 1 - 1 / 1125899906842624"
    unfolding gk by (simp add: t_def)
  then have t_hi: "t < of_int k + 1" by simp
  have "\<lfloor>t\<rfloor> = k" using t_lo t_hi by (rule floor_unique)
  then show ?thesis by (simp add: sc pp tt k_def)
qed

lemma randomInt_double_draw:
  assumes "0 \<le> now" "now < 2 ^ 53"
  shows "\<exists>h. RNG_hash (of_int now) = Some (of_int h) \<and> 0 \<le> h \<and> h < RNG_m - 1
             \<and> randomInt_double (of_int now) 0 6 = Some (randomInt h 0 6)"
proof -
  from RNG_hash_range[OF assms] obtain H where
    H: "RNG_hash (of_int now) = Some (of_int H)" "0 \<le> H" "H \<le> 2147483646" by blast
  have "fsub 6 0 = Some 6" using fl_of_int[of 6] by (simp add: fsub_def)
  moreover have "fadd 6 1 = Some 7" using fl_of_int[of 7] by (simp add: fadd_def)
  ultimately have "randomInt_double (of_int now) 0 6 = Some ((H * 7) div 2147483647)"
    using draw_floor[OF H(2,3)] by (simp add: randomInt_double_def H(1) RNG_m_minus_1)
  moreover have "randomInt H 0 6 = (H * 7) div 2147483647"
    by (simp add: randomInt_div RNG_m_def)
  ultimately show ?thesis using H by (auto simp: RNG_m_def)
qed

section \<open>Line clearing\<close>

lemma fullRow_iff: "fullRow row \<longleftrightarrow> (\<forall>cell\<in>set row. cell \<noteq> None)"
  by (simp add: fullRow_def list_all_iff)

lemma length_filter_fullRow:
  "length g - length (filter (\<lambda>row. \<not> fullRow row) g) = length (filter fullRow g)"
  using sum_length_filter_compl [of fullRow g] by simp

lemma lineClear_Cons:
  "lineClear (r0 # rs) =
     Inr (replicate (length (filter fullRow (r0 # rs))) (replicate (length r0) None)
            @ filter (\<lambda>row. \<not> fullRow row) (r0 # rs),
          int (length (filter fullRow (r0 # rs))))"
proof -
  have "int (length (r0 # rs)) - int (length (filter (\<lambda>row. \<not> fullRow row) (r0 # rs)))
        = int (length (filter fullRow (r0 # rs)))"
    using sum_length_filter_compl [of fullRow "r0 # rs"] by linarith
  then show ?thesis
    unfolding lineClear_def Let_def
    by (simp only: list.case length_filter_fullRow)
qed

lemma lineClear_Inr:
  assumes "lineClear g = Inr (newGrid, cleared)"
  shows "g \<noteq> []"
    and "newGrid = replicate (length (filter fullRow g)) (replicate (length (hd g)) None)
                     @ filter (\<lambda>row. \<not> fullRow row) g"
    and "cleared = int (length (filter fullRow g))"
proof -
  show g: "g \<noteq> []" using assms by (auto simp: lineClear_def)
  then obtain r0 rs where "g = r0 # rs" by (cases g) auto
  then show "newGrid = replicate (length (filter fullRow g)) (replicate (length (hd g)) None)
                     @ filter (\<lambda>row. \<not> fullRow row) g"
    and "cleared = int (length (filter fullRow g))"
    using assms lineClear_Cons [of r0 rs] by simp_all
qed

lemma lineClear_total: "g \<noteq> [] \<Longrightarrow> \<exists>newGrid cleared. lineClear g = Inr (newGrid, cleared) \<and> length newGrid = length g"
proof -
  assume "g \<noteq> []"
  then obtain r0 rs where g: "g = r0 # rs" by (cases g) auto
  have "length (filter fullRow g) + length (filter (\<lambda>row. \<not> fullRow row) g) = length g"
    by (rule sum_length_filter_compl)
  then show ?thesis using lineClear_Cons [of r0 rs] by (simp add: g)
qed

lemma topOut_total: "g \<noteq> [] \<Longrightarrow> \<exists>ended. topOut g = Inr ended"
  by (cases g) (simp_all add: topOut_def)

text \<open>
  Claim C1, amended. For every grid that has at least one row and whose rows all have
  the same width \<open>w\<close>, \<open>lineClear\<close> returns a grid of the same height that consists of
  \<open>k\<close> rows of \<open>w\<close> empty cells on top of the non-full rows of the input in their
  original order, together with \<open>rowsCleared = k\<close>, where \<open>k\<close> is the number of full
  rows and a row is full iff each of its cells is non-empty.
\<close>

theorem lineClear_removes_full_rows:
  assumes "g \<noteq> []" and "\<forall>row\<in>set g. length row = w"
  shows "lineClear g =
           Inr (replicate (length (filter fullRow g)) (replicate w None)
                  @ filter (\<lambda>row. \<not> fullRow row) g,
                int (length (filter fullRow g)))
         \<and> length (replicate (length (filter fullRow g)) (replicate w (None :: GridCell))
                  @ filter (\<lambda>row. \<not> fullRow row) g) = length g
         \<and> (\<forall>row\<in>set g. fullRow row \<longleftrightarrow> (\<forall>cell\<in>set row. cell \<noteq> None))"
proof -
  obtain r0 rs where g: "g = r0 # rs" using assms(1) by (cases g) auto
  have w: "length r0 = w" using assms(2) g by simp
  have len: "length (filter fullRow g) + length (filter (\<lambda>row. \<not> fullRow row) g) = length g"
    by (rule sum_length_filter_compl)
  show ?thesis
    using lineClear_Cons [of r0 rs] w len by (simp add: g fullRow_iff)
qed

theorem lineClear_removes_full_rows_witness:
  "[[None, Some ''red''], [Some ''red'', Some ''blue''], [None, None], [Some ''cyan'', Some ''red'']] \<noteq> []
   \<and> list_all (\<lambda>row. length row = 2)
         [[None, Some ''red''], [Some ''red'', Some ''blue''], [None, None],
          [Some ''cyan'', Some ''red'']]
   \<and> lineClear [[None, Some ''red''], [Some ''red'', Some ''blue''], [None, None],
                  [Some ''cyan'', Some ''red'']]
       = Inr ([[None, None], [None, None], [None, Some ''red''], [None, None]], 2)"
  using lineClear_removes_full_rows
          [of "[[None, Some ''red''], [Some ''red'', Some ''blue''], [None, None],
                [Some ''cyan'', Some ''red'']]" 2]
  by (simp add: fullRow_def eval_nat_numeral)

text \<open>On the grid without rows, whose rows trivially all have the same width,
  \<open>grid[0].length\<close> throws and nothing is returned.\<close>

theorem lineClear_empty_grid: "lineClear [] = Inl TypeError"
  by (simp add: lineClear_def)

section \<open>Game-over reset\<close>

text \<open>
  Claim C4. For every state \<open>s\<close> with \<open>gameEnd = true\<close>, the tick action returns the
  initial state in every field except \<open>highScore\<close>, which is the greater of \<open>s.score\<close>
  and \<open>s.highScore\<close>; in particular the grid is all-empty, \<open>score = 0\<close>, \<open>level = 1\<close>,
  \<open>heldElement\<close> is empty and \<open>usedHold = false\<close>.
\<close>

theorem GameFlow_reset:
  "gameEnd s \<Longrightarrow>
     GameFlow_apply (initialState h1 h2) h s
       = Inr ((initialState h1 h2)\<lparr>highScore := max (score s) (highScore s)\<rparr>)
     \<and> grid ((initialState h1 h2)\<lparr>highScore := max (score s) (highScore s)\<rparr>)
         = replicate 20 (replicate 10 None)
     \<and> score ((initialState h1 h2)\<lparr>highScore := max (score s) (highScore s)\<rparr>) = 0
     \<and> level ((initialState h1 h2)\<lparr>highScore := max (score s) (highScore s)\<rparr>) = 1
     \<and> heldElement ((initialState h1 h2)\<lparr>highScore := max (score s) (highScore s)\<rparr>) = None
     \<and> usedHold ((initialState h1 h2)\<lparr>highScore := max (score s) (highScore s)\<rparr>) = False"
  by (simp add: GameFlow_apply_def initialState_def initialiseGrid_def Constants_defs max_def)

theorem GameFlow_reset_witness:
  "gameEnd ((initialState 3 5)\<lparr>score := 500, highScore := 300, gameEnd := True\<rparr>)
   \<and> GameFlow_apply (initialState 3 5) 0
         ((initialState 3 5)\<lparr>score := 500, highScore := 300, gameEnd := True\<rparr>)
       = Inr ((initialState 3 5)\<lparr>highScore := 500\<rparr>)"
  using GameFlow_reset [of "(initialState 3 5)\<lparr>score := 500, highScore := 300, gameEnd := True\<rparr>" 3 5 0]
  by simp

section \<open>Collision detection\<close>

lemma set_filledCells:
  "set (filledCells sh) = {(xx, yy). yy < length sh \<and> xx < length (sh ! yy) \<and> sh ! yy ! xx \<noteq> 0}"
  by (auto simp: filledCells_def)

lemma filledCells_square: "filledCells [[1, 1], [1, 1]] = [(0, 0), (1, 0), (0, 1), (1, 1)]"
  by code_simp

lemma initialState_0_0:
  "initialState 0 0 =
     \<lparr>currentTetromino = Some O_TETROMINO, nextTetromino = Some O_TETROMINO,
      heldElement = None, grid = replicate 20 (replicate 10 None), score = 0, level = 1,
      highScore = 0, gameEnd = False, speedMultiplier = 10, speedCount = 0, rowsCleared = 0,
      usedHold = False\<rparr>"
  by code_simp

text \<open>A visit whose callback never throws is an existential over the elements.\<close>

lemma someE_Inr:
  "(\<And>i. i < length xs \<Longrightarrow> f (k + i) (xs ! i) = Inr (g (k + i) (xs ! i))) \<Longrightarrow>
     someE f k xs = Inr (\<exists>i<length xs. g (k + i) (xs ! i))"
proof (induction xs arbitrary: k)
  case Nil
  then show ?case by simp
next
  case (Cons v vs)
  have hd: "f k v = Inr (g k v)" using Cons.prems [of 0] by simp
  have tl: "someE f (Suc k) vs = Inr (\<exists>i<length vs. g (Suc k + i) (vs ! i))"
  proof (rule Cons.IH)
    fix i assume "i < length vs"
    then show "f (Suc k + i) (vs ! i) = Inr (g (Suc k + i) (vs ! i))"
      using Cons.prems [of "Suc i"] by simp
  qed
  have ex: "(\<exists>i<length (v # vs). g (k + i) ((v # vs) ! i))
            \<longleftrightarrow> g k v \<or> (\<exists>i<length vs. g (Suc k + i) (vs ! i))"
    by (auto simp: less_Suc_eq_0_disj)
  show ?case
    by (cases "g k v") (simp_all only: someE.simps hd tl ex sum.case bool.case simp_thms)
qed

lemma someE_Inr0:
  "(\<And>i. i < length xs \<Longrightarrow> f i (xs ! i) = Inr (g i (xs ! i))) \<Longrightarrow>
     someE f 0 xs = Inr (\<exists>i<length xs. g i (xs ! i))"
  using someE_Inr [of xs f 0 g] by simp

lemma someE_Inl: "someE f k xs = Inl e \<Longrightarrow> \<exists>i v. f i v = Inl e"
proof (induction xs arbitrary: k)
  case Nil
  then show ?case by simp
next
  case (Cons v vs)
  show ?case
  proof (cases "f k v")
    case (Inl e')
    then show ?thesis using Cons.prems by auto
  next
    case (Inr b)
    then have "someE f (Suc k) vs = Inl e" using Cons.prems by (cases b) simp_all
    then show ?thesis by (rule Cons.IH)
  qed
qed

lemma collisionDetection_Inr:
  assumes cur: "currentTetromino s = Some t"
    and sh: "js_index (shapes t) (rotation t) = Some sh"
    and cells: "\<And>xx yy. (xx, yy) \<in> set (filledCells sh) \<Longrightarrow>
                  cellCollides s (position t) d yy xx = Inr (c xx yy)"
  shows "collisionDetection s d = Inr (\<exists>(xx, yy)\<in>set (filledCells sh). c xx yy)"
proof -
  let ?inner = "\<lambda>yy row. someE (\<lambda>xx cell.
       if cell \<noteq> 0 then cellCollides s (position t) d yy xx else Inr False) 0 row"
  have inner: "?inner yy (sh ! yy)
                 = Inr (\<exists>xx<length (sh ! yy). sh ! yy ! xx \<noteq> 0 \<and> c xx yy)" if "yy < length sh" for yy
    by (rule someE_Inr0) (use that cells in \<open>auto simp: set_filledCells\<close>)
  have "someE ?inner 0 sh
        = Inr (\<exists>yy<length sh. \<exists>xx<length (sh ! yy). sh ! yy ! xx \<noteq> 0 \<and> c xx yy)"
    by (rule someE_Inr0) (use inner in simp)
  moreover have "(\<exists>yy<length sh. \<exists>xx<length (sh ! yy). sh ! yy ! xx \<noteq> 0 \<and> c xx yy)
                 \<longleftrightarrow> (\<exists>(xx, yy)\<in>set (filledCells sh). c xx yy)"
    by (auto simp: set_filledCells)
  ultimately show ?thesis
    by (simp add: collisionDetection_def cur sh)
qed

lemma js_index_Some: "0 \<le> i \<Longrightarrow> i < int (length xs) \<Longrightarrow> js_index xs i = Some (xs ! nat i)"
  by (simp add: js_index_def)

lemma cellCollides_DOWN:
  assumes "length (grid s) = 20" "0 \<le> pos_y p + int yy + 1"
  shows "cellCollides s p DOWN yy xx
         = Inr (pos_y p + int yy + 1 \<ge> 20 \<or> occupiedAt (grid s) (pos_y p + int yy + 1) (pos_x p + int xx))"
  using assms by (auto simp: cellCollides_def Constants_defs occupiedAt_def js_index_def Let_def)

lemma cellCollides_LEFT:
  assumes "length (grid s) = 20" "0 \<le> pos_y p + int yy" "pos_y p + int yy < 20"
  shows "cellCollides s p LEFT yy xx
         = Inr (pos_x p + int xx - 1 < 0 \<or> occupiedAt (grid s) (pos_y p + int yy) (pos_x p + int xx - 1))"
  using assms by (auto simp: cellCollides_def Constants_defs occupiedAt_def js_index_def Let_def)

lemma cellCollides_RIGHT:
  assumes "length (grid s) = 20" "0 \<le> pos_y p + int yy" "pos_y p + int yy < 20"
  shows "cellCollides s p RIGHT yy xx
         = Inr (pos_x p + int xx + 1 \<ge> 10 \<or> occupiedAt (grid s) (pos_y p + int yy) (pos_x p + int xx + 1))"
  using assms by (auto simp: cellCollides_def Constants_defs occupiedAt_def js_index_def Let_def)

lemma cellCollides_ROTATE:
  assumes "length (grid s) = 20"
  shows "cellCollides s p ROTATE yy xx
         = Inr (pos_y p + int yy < 0 \<or> pos_y p + int yy \<ge> 20
                \<or> pos_x p + int xx < 0 \<or> pos_x p + int xx \<ge> 10
                \<or> occupiedAt (grid s) (pos_y p + int yy) (pos_x p + int xx))"
  using assms by (auto simp: cellCollides_def Constants_defs occupiedAt_def js_index_def Let_def)

lemma cellCollides_Inl: "cellCollides s p d yy xx = Inl e \<Longrightarrow> e = TypeError"
  by (cases d) (simp_all add: cellCollides_def Let_def split: if_splits option.splits)

lemma collisionDetection_Inl:
  assumes "collisionDetection s d = Inl e"
  shows "e = TypeError"
proof (cases "currentTetromino s")
  case None
  then show ?thesis using assms by (simp add: collisionDetection_def)
next
  case (Some t)
  show ?thesis
  proof (cases "js_index (shapes t) (rotation t)")
    case None
    then show ?thesis using assms Some by (simp add: collisionDetection_def)
  next
    case (Some sh)
    have "someE (\<lambda>yy row. someE (\<lambda>xx cell.
             if cell \<noteq> 0 then cellCollides s (position t) d yy xx else Inr False) 0 row) 0 sh
          = Inl e"
      using assms \<open>currentTetromino s = Some t\<close> Some by (simp add: collisionDetection_def)
    from someE_Inl [OF this] obtain yy row where
      "someE (\<lambda>xx (cell::int). if cell \<noteq> 0 then cellCollides s (position t) d yy xx else Inr False)
         0 row = Inl e"
      by blast
    from someE_Inl [OF this] obtain xx cell where
      "(if cell \<noteq> (0::int) then cellCollides s (position t) d yy xx else Inr False) = Inl e"
      by blast
    then have "cellCollides s (position t) d yy xx = Inl e" by (simp split: if_splits)
    then show ?thesis by (rule cellCollides_Inl)
  qed
qed

lemma collisionDetection_Inr_piece:
  assumes "collisionDetection s d = Inr b"
  shows "\<exists>t sh. currentTetromino s = Some t \<and> js_index (shapes t) (rotation t) = Some sh"
proof (cases "currentTetromino s")
  case None
  then show ?thesis using assms by (simp add: collisionDetection_def)
next
  case (Some t)
  then show ?thesis using assms
    by (cases "js_index (shapes t) (rotation t)") (simp_all add: collisionDetection_def)
qed

lemma collisionDetection_DOWN_Inr:
  assumes "length (grid s) = 20"
    and "currentTetromino s = Some t"
    and "js_index (shapes t) (rotation t) = Some sh"
    and "\<forall>(xx, yy)\<in>set (filledCells sh). 0 \<le> pos_y (position t) + int yy"
  shows "collisionDetection s DOWN
           = Inr (\<exists>(xx, yy)\<in>set (filledCells sh).
                    pos_y (position t) + int yy + 1 \<ge> 20
                    \<or> occupiedAt (grid s) (pos_y (position t) + int yy + 1) (pos_x (position t) + int xx))"
  by (rule collisionDetection_Inr [OF assms(2,3)], rule cellCollides_DOWN) (use assms(1,4) in auto)

text \<open>
  Claim C10. The LEFT and RIGHT cases of \<open>collisionDetection\<close> read the grid row
  \<open>position.y + y\<close> without a vertical bounds check. For every state (a grid of 20
  rows, a current piece with an active shape) in which each filled cell of the active
  shape lies in rows 0..19, every such row read is inside the grid and both cases return
  a boolean: whether some filled cell would leave the board sideways or meet a truthy
  grid cell. No \<open>TypeError\<close> is possible.
\<close>

theorem collisionDetection_LEFT_RIGHT_total:
  assumes "length (grid s) = 20"
    and "currentTetromino s = Some t"
    and "js_index (shapes t) (rotation t) = Some sh"
    and "\<forall>(xx, yy)\<in>set (filledCells sh).
           0 \<le> pos_y (position t) + int yy \<and> pos_y (position t) + int yy < 20"
  shows "collisionDetection s LEFT
           = Inr (\<exists>(xx, yy)\<in>set (filledCells sh).
                    pos_x (position t) + int xx - 1 < 0
                    \<or> occupiedAt (grid s) (pos_y (position t) + int yy) (pos_x (position t) + int xx - 1))
         \<and> collisionDetection s RIGHT
           = Inr (\<exists>(xx, yy)\<in>set (filledCells sh).
                    pos_x (position t) + int xx + 1 \<ge> 10
                    \<or> occupiedAt (grid s) (pos_y (position t) + int yy) (pos_x (position t) + int xx + 1))
         \<and> (\<forall>(xx, yy)\<in>set (filledCells sh).
               js_index (grid s) (pos_y (position t) + int yy) \<noteq> None)"
proof (intro conjI)
  show "collisionDetection s LEFT
           = Inr (\<exists>(xx, yy)\<in>set (filledCells sh).
                    pos_x (position t) + int xx - 1 < 0
                    \<or> occupiedAt (grid s) (pos_y (position t) + int yy) (pos_x (position t) + int xx - 1))"
    by (rule collisionDetection_Inr [OF assms(2,3)], rule cellCollides_LEFT) (use assms(1,4) in auto)
  show "collisionDetection s RIGHT
           = Inr (\<exists>(xx, yy)\<in>set (filledCells sh).
                    pos_x (position t) + int xx + 1 \<ge> 10
                    \<or> occupiedAt (grid s) (pos_y (position t) + int yy) (pos_x (position t) + int xx + 1))"
    by (rule collisionDetection_Inr [OF assms(2,3)], rule cellCollides_RIGHT) (use assms(1,4) in auto)
  show "\<forall>(xx, yy)\<in>set (filledCells sh).
               js_index (grid s) (pos_y (position t) + int yy) \<noteq> None"
    using assms(1,4) by (auto simp: js_index_def)
qed

theorem collisionDetection_LEFT_RIGHT_total_witness:
  "length (grid (initialState 0 0)) = 20
   \<and> currentTetromino (initialState 0 0) = Some O_TETROMINO
   \<and> js_index (shapes O_TETROMINO) (rotation O_TETROMINO) = Some [[1, 1], [1, 1]]
   \<and> list_all (\<lambda>(xx, yy).
          0 \<le> pos_y (position O_TETROMINO) + int yy \<and> pos_y (position O_TETROMINO) + int yy < 20)
        (filledCells [[1, 1], [1, 1]])
   \<and> collisionDetection (initialState 0 0) LEFT = Inr False
   \<and> collisionDetection (initialState 0 0) RIGHT = Inr False"
proof -
  have h1: "length (grid (initialState 0 0)) = 20" by (simp add: initialState_0_0)
  have h2: "currentTetromino (initialState 0 0) = Some O_TETROMINO" by (simp add: initialState_0_0)
  have h3: "js_index (shapes O_TETROMINO) (rotation O_TETROMINO) = Some [[1, 1], [1, 1]]"
    by (simp add: O_TETROMINO_def js_index_def)
  have h4: "\<forall>(xx, yy)\<in>set (filledCells [[1, 1], [1, 1]]).
          0 \<le> pos_y (position O_TETROMINO) + int yy \<and> pos_y (position O_TETROMINO) + int yy < 20"
    by (simp add: filledCells_square Tetromino_defs Constants_defs)
  have occ: "\<not> occupiedAt (grid (initialState 0 0)) r c" for r c
    by (auto simp: initialState_0_0 occupiedAt_def js_index_def truthy_def split: option.splits)
  from collisionDetection_LEFT_RIGHT_total [OF h1 h2 h3 h4] h1 h2 h3 h4 show ?thesis
    by (simp add: filledCells_square occ Tetromino_defs Constants_defs)
qed

section \<open>Rotation\<close>

text \<open>
  Claim C8. For every state \<open>s\<close> (a grid of 20 rows, a current piece whose rotation is
  an index of its shapes), the rotate action returns \<open>s\<close> unchanged when the candidate
  shape, at the unchanged position, has a filled cell outside \<open>[0,10) x [0,20)\<close> or on
  a truthy grid cell, and otherwise returns \<open>s\<close> with the rotation of the current piece
  advanced to \<open>(rotation + 1) mod shapes.length\<close> and nothing else changed. No other
  position is tried.
\<close>

theorem Rotate_apply_spec:
  assumes "length (grid s) = 20"
    and "currentTetromino s = Some t"
    and "0 \<le> rotation t" and "rotation t < int (length (shapes t))"
  shows "Rotate_apply s =
           Inr (if rotationBlocked (grid s) (position t)
                     (shapes t ! nat ((rotation t + 1) mod int (length (shapes t))))
                then s
                else s\<lparr>currentTetromino :=
                         Some (t\<lparr>rotation := (rotation t + 1) mod int (length (shapes t))\<rparr>)\<rparr>)"
proof -
  let ?n = "int (length (shapes t))"
  let ?r = "(rotation t + 1) mod ?n"
  let ?t' = "t\<lparr>rotation := ?r\<rparr>"
  let ?s' = "s\<lparr>currentTetromino := Some ?t'\<rparr>"
  have r: "(if rotation t + 1 < ?n then rotation t + 1 else 0) = ?r"
  proof (cases "rotation t + 1 < ?n")
    case True
    then show ?thesis using assms(3) by (simp add: mod_pos_pos_trivial)
  next
    case False
    then have "rotation t + 1 = ?n" using assms(4) by linarith
    then show ?thesis using False by simp
  qed
  have npos: "0 < ?n" using assms(3,4) by linarith
  have rb: "0 \<le> ?r" "?r < ?n"
    using npos by (rule pos_mod_sign, rule pos_mod_bound)
  have sh: "js_index (shapes ?t') (rotation ?t') = Some (shapes t ! nat ?r)"
    using rb by (simp add: js_index_def)
  have "collisionDetection ?s' ROTATE
          = Inr (\<exists>(xx, yy)\<in>set (filledCells (shapes t ! nat ?r)).
                   pos_y (position ?t') + int yy < 0 \<or> pos_y (position ?t') + int yy \<ge> 20
                   \<or> pos_x (position ?t') + int xx < 0 \<or> pos_x (position ?t') + int xx \<ge> 10
                   \<or> occupiedAt (grid ?s') (pos_y (position ?t') + int yy) (pos_x (position ?t') + int xx))"
    by (rule collisionDetection_Inr [OF _ sh], simp, rule cellCollides_ROTATE) (use assms(1) in simp)
  then have cd: "collisionDetection ?s' ROTATE
          = Inr (rotationBlocked (grid s) (position t) (shapes t ! nat ?r))"
    by (simp add: rotationBlocked_def list_ex_iff)
  show ?thesis
    unfolding Rotate_apply_def Let_def assms(2) option.case r cd by simp
qed

theorem Rotate_apply_spec_witness:
  "length (grid bladeAtWall) = 20
   \<and> currentTetromino bladeAtWall
       = Some (I_TETROMINO\<lparr>position := \<lparr>pos_x = 9, pos_y = 0\<rparr>, rotation := 3\<rparr>)
   \<and> (0::int) \<le> 3 \<and> (3::int) < int (length (shapes I_TETROMINO))
   \<and> Rotate_apply bladeAtWall = Inr bladeAtWall"
proof -
  let ?t = "I_TETROMINO\<lparr>position := \<lparr>pos_x = 9, pos_y = 0\<rparr>, rotation := 3\<rparr>"
  have h1: "length (grid bladeAtWall) = 20" by (simp add: bladeAtWall_def initialState_0_0)
  have h2: "currentTetromino bladeAtWall = Some ?t" by (simp add: bladeAtWall_def)
  have h3: "0 \<le> rotation ?t" by simp
  have h4: "rotation ?t < int (length (shapes ?t))" by (simp add: I_TETROMINO_def)
  have r: "(rotation ?t + 1) mod int (length (shapes ?t)) = 0" by (simp add: I_TETROMINO_def)
  have blocked: "rotationBlocked (grid bladeAtWall) (position ?t) (shapes ?t ! nat 0)"
    by code_simp
  from Rotate_apply_spec [OF h1 h2 h3 h4] h1 h2 h4 blocked show ?thesis
    unfolding r by simp
qed

section \<open>Placement\<close>

lemma mapE_length: "mapE f k xs = Inr ys \<Longrightarrow> length ys = length xs"
  by (induction xs arbitrary: k ys) (auto split: sum.splits)

lemma mapE_nth:
  "mapE f k xs = Inr ys \<Longrightarrow> i < length xs \<Longrightarrow> f (k + i) (xs ! i) = Inr (ys ! i)"
proof (induction xs arbitrary: k ys i)
  case Nil
  then show ?case by simp
next
  case (Cons v vs)
  then obtain w ws where w: "f k v = Inr w" and ws: "mapE f (Suc k) vs = Inr ws"
    and ys: "ys = w # ws"
    by (auto split: sum.splits)
  show ?case
  proof (cases i)
    case 0
    then show ?thesis using w ys by simp
  next
    case (Suc j)
    then have "f (Suc k + j) (vs ! j) = Inr (ws ! j)"
      using Cons.IH [OF ws, of j] Cons.prems(2) by simp
    then show ?thesis using Suc ys by simp
  qed
qed

lemma mapE_total:
  "(\<And>i. i < length xs \<Longrightarrow> \<exists>w. f (k + i) (xs ! i) = Inr w) \<Longrightarrow> \<exists>ys. mapE f k xs = Inr ys"
proof (induction xs arbitrary: k)
  case Nil
  then show ?case by simp
next
  case (Cons v vs)
  obtain w where w: "f k v = Inr w" using Cons.prems [of 0] by auto
  have "\<exists>ws. mapE f (Suc k) vs = Inr ws"
  proof (rule Cons.IH)
    fix i assume "i < length vs"
    then show "\<exists>w. f (Suc k + i) (vs ! i) = Inr w" using Cons.prems [of "Suc i"] by simp
  qed
  then show ?case using w by auto
qed

lemma placeCell_Inr:
  assumes "js_index (shapes t) (rotation t) = Some sh"
  shows "placeCell t i j c = Inr (if covers t sh i j then Some (color t) else c)"
  using assms by (auto simp: placeCell_def covers_def Let_def js_index_def)

lemma placeTetrominoOnGrid_total:
  assumes "js_index (shapes t) (rotation t) = Some sh"
  shows "\<exists>placed. placeTetrominoOnGrid g t = Inr placed"
  unfolding placeTetrominoOnGrid_def
  by (intro mapE_total) (simp add: placeCell_Inr [OF assms])

lemma placeTetrominoOnGrid_length:
  "placeTetrominoOnGrid g t = Inr placed \<Longrightarrow> length placed = length g"
  unfolding placeTetrominoOnGrid_def by (rule mapE_length)

lemma placeTetrominoOnGrid_row:
  assumes "placeTetrominoOnGrid g t = Inr placed" and "i < length g"
  shows "mapE (\<lambda>colIndex cell. placeCell t i colIndex cell) 0 (g ! i) = Inr (placed ! i)"
  using mapE_nth [OF assms [unfolded placeTetrominoOnGrid_def], of ] by simp

lemma placeTetrominoOnGrid_row_length:
  assumes "placeTetrominoOnGrid g t = Inr placed" and "i < length g"
  shows "length (placed ! i) = length (g ! i)"
  using placeTetrominoOnGrid_row [OF assms] by (rule mapE_length)

lemma placeTetrominoOnGrid_cell:
  assumes "placeTetrominoOnGrid g t = Inr placed" and "i < length g" and "j < length (g ! i)"
  shows "placeCell t i j (g ! i ! j) = Inr (placed ! i ! j)"
  using mapE_nth [OF placeTetrominoOnGrid_row [OF assms(1,2)] assms(3)] by simp

text \<open>Rows above and below the shape matrix are copied unchanged.\<close>

lemma placeTetrominoOnGrid_untouched:
  assumes "placeTetrominoOnGrid g t = Inr placed" and "i < length g"
    and "js_index (shapes t) (rotation t) = Some sh"
    and "\<not> (pos_y (position t) \<le> int i \<and> int i < pos_y (position t) + int (length sh))"
  shows "placed ! i = g ! i"
proof (rule nth_equalityI)
  show "length (placed ! i) = length (g ! i)"
    by (rule placeTetrominoOnGrid_row_length [OF assms(1,2)])
  fix j assume "j < length (placed ! i)"
  then have j: "j < length (g ! i)"
    using placeTetrominoOnGrid_row_length [OF assms(1,2)] by simp
  have "\<not> covers t sh i j" using assms(4) by (auto simp: covers_def)
  then show "placed ! i ! j = g ! i ! j"
    using placeTetrominoOnGrid_cell [OF assms(1,2) j] placeCell_Inr [OF assms(3), of i j "g ! i ! j"]
    by simp
qed

lemma card_window: "card {i::nat. p \<le> int i \<and> int i < p + int n} \<le> n"
proof -
  have "{i::nat. p \<le> int i \<and> int i < p + int n} \<subseteq> (\<lambda>j. nat (p + int j)) ` {0..<n}"
  proof
    fix i assume "i \<in> {i::nat. p \<le> int i \<and> int i < p + int n}"
    then have a: "p \<le> int i" and b: "int i < p + int n" by auto
    have "nat (int i - p) < n" using a b by linarith
    moreover have "i = nat (p + int (nat (int i - p)))" using a by simp
    ultimately show "i \<in> (\<lambda>j. nat (p + int j)) ` {0..<n}" by (metis atLeastLessThan_iff image_eqI zero_le)
  qed
  then have "card {i::nat. p \<le> int i \<and> int i < p + int n} \<le> card ((\<lambda>j. nat (p + int j)) ` {0..<n})"
    by (intro card_mono) auto
  also have "\<dots> \<le> card {0..<n}" by (rule card_image_le) simp
  finally show ?thesis by simp
qed

text \<open>On a grid without full rows, every full row after the placement is one of the
  rows the shape matrix spans.\<close>

lemma placed_full_rows_bound:
  assumes pl: "placeTetrominoOnGrid g t = Inr placed"
    and sh: "js_index (shapes t) (rotation t) = Some sh"
    and nofull: "\<forall>row\<in>set g. \<not> fullRow row"
  shows "length (filter fullRow placed) \<le> length sh"
proof -
  have len: "length placed = length g" by (rule placeTetrominoOnGrid_length [OF pl])
  have "{i. i < length placed \<and> fullRow (placed ! i)}
        \<subseteq> {i::nat. pos_y (position t) \<le> int i \<and> int i < pos_y (position t) + int (length sh)}"
  proof
    fix i assume "i \<in> {i. i < length placed \<and> fullRow (placed ! i)}"
    then have i: "i < length g" and full: "fullRow (placed ! i)" using len by auto
    have "\<not> fullRow (g ! i)" using nofull i by simp
    then have "placed ! i \<noteq> g ! i" using full by auto
    then show "i \<in> {i::nat. pos_y (position t) \<le> int i \<and> int i < pos_y (position t) + int (length sh)}"
      using placeTetrominoOnGrid_untouched [OF pl i sh] by blast
  qed
  then have "card {i. i < length placed \<and> fullRow (placed ! i)}
             \<le> card {i::nat. pos_y (position t) \<le> int i \<and> int i < pos_y (position t) + int (length sh)}"
  proof (rule card_mono [rotated])
    have "{i::nat. pos_y (position t) \<le> int i \<and> int i < pos_y (position t) + int (length sh)}
          \<subseteq> {i. int i < pos_y (position t) + int (length sh)}" by auto
    moreover have "finite {i::nat. int i < pos_y (position t) + int (length sh)}"
    proof -
      have "{i::nat. int i < pos_y (position t) + int (length sh)}
            \<subseteq> {..< nat (pos_y (position t) + int (length sh))}" by auto
      then show ?thesis by (rule finite_subset) simp
    qed
    ultimately show "finite {i::nat. pos_y (position t) \<le> int i \<and> int i < pos_y (position t) + int (length sh)}"
      by (rule finite_subset)
  qed
  also have "\<dots> \<le> length sh" by (rule card_window)
  finally show ?thesis by (simp add: length_filter_conv_card)
qed

section \<open>The down-step\<close>

lemma moveTetrominoDown_free:
  assumes "collisionDetection s DOWN = Inr False" and "currentTetromino s = Some t"
  shows "moveTetrominoDown h s =
           Inr (s\<lparr>currentTetromino :=
                    Some (t\<lparr>position := \<lparr>pos_x = pos_x (position t),
                                          pos_y = pos_y (position t) + 1\<rparr>\<rparr>),
                  speedCount := 0\<rparr>)"
  using assms by (simp add: moveTetrominoDown_def)

lemma moveTetrominoDown_cases:
  assumes "moveTetrominoDown h s = Inr s'"
  obtains (lock) t placed newGrid cleared ended points where
      "collisionDetection s DOWN = Inr True" "currentTetromino s = Some t"
      "placeTetrominoOnGrid (grid s) t = Inr placed" "lineClear placed = Inr (newGrid, cleared)"
      "topOut newGrid = Inr ended" "calculateScore (level s) cleared = Inr points"
      "s' = s\<lparr>currentTetromino := nextTetromino s,
               nextTetromino := randomTetromino h,
               grid := newGrid,
               gameEnd := ended,
               score := score s + points,
               speedCount := 0,
               speedMultiplier := MULTIPLIER - (1 + (rowsCleared s + cleared) div 3),
               level := 1 + (rowsCleared s + cleared) div 3,
               rowsCleared := rowsCleared s + cleared,
               usedHold := False\<rparr>"
  | (free) t where
      "collisionDetection s DOWN = Inr False" "currentTetromino s = Some t"
      "s' = s\<lparr>currentTetromino :=
                 Some (t\<lparr>position := \<lparr>pos_x = pos_x (position t),
                                       pos_y = pos_y (position t) + 1\<rparr>\<rparr>),
               speedCount := 0\<rparr>"
  using assms unfolding moveTetrominoDown_def Let_def
  by (auto split: sum.splits bool.splits option.splits prod.splits)

lemma moveTetrominoDown_lock_no_TypeError:
  assumes "length (grid s) = 20" and "collisionDetection s DOWN = Inr True"
  shows "moveTetrominoDown h s \<noteq> Inl TypeError"
proof -
  obtain t sh where t: "currentTetromino s = Some t"
    and sh: "js_index (shapes t) (rotation t) = Some sh"
    using collisionDetection_Inr_piece [OF assms(2)] by blast
  obtain placed where pl: "placeTetrominoOnGrid (grid s) t = Inr placed"
    using placeTetrominoOnGrid_total [OF sh] by blast
  have "placed \<noteq> []" using placeTetrominoOnGrid_length [OF pl] assms(1) by auto
  then obtain newGrid cleared where lc: "lineClear placed = Inr (newGrid, cleared)"
    and "length newGrid = length placed"
    using lineClear_total by blast
  then have "newGrid \<noteq> []" using \<open>placed \<noteq> []\<close> by auto
  then obtain ended where "topOut newGrid = Inr ended" using topOut_total by blast
  then show ?thesis
    using assms(2) t pl lc
    by (cases "calculateScore (level s) cleared")
       (auto simp: moveTetrominoDown_def Let_def dest: calculateScore_Inl)
qed

section \<open>Hard drop\<close>

text \<open>More fuel does not change a result.\<close>

lemma Drop_apply_mono:
  "Drop_apply n h s = Some r \<Longrightarrow> n \<le> n' \<Longrightarrow> Drop_apply n' h s = Some r"
proof (induction n arbitrary: s n')
  case 0
  then show ?case by simp
next
  case (Suc n)
  then obtain m where n': "n' = Suc m" and nm: "n \<le> m" by (cases n') auto
  show ?case
    using Suc.prems(1) Suc.IH [OF _ nm] unfolding n'
    by (auto split: sum.splits bool.splits)
qed

text \<open>A filled cell at distance \<open>m\<close> from the bottom row bounds the number of free
  down-steps by \<open>m\<close>.\<close>

lemma Drop_reaches_collision:
  assumes "length (grid s) = 20"
    and "currentTetromino s = Some t"
    and "js_index (shapes t) (rotation t) = Some sh"
    and "\<forall>(xx, yy)\<in>set (filledCells sh). 0 \<le> pos_y (position t) + int yy"
    and "(x0, y0) \<in> set (filledCells sh)"
    and "pos_y (position t) + int y0 < 20"
    and "m = nat (19 - (pos_y (position t) + int y0))"
  shows "\<exists>k p. k \<le> m \<and> downSteps k h s = Inr p
           \<and> (\<forall>j<k. \<exists>q. downSteps j h s = Inr q \<and> collisionDetection q DOWN = Inr False)
           \<and> collisionDetection p DOWN = Inr True
           \<and> length (grid p) = 20
           \<and> Drop_apply (Suc k) h s = Some (moveTetrominoDown h p)"
  using assms
proof (induction m arbitrary: s t)
  case 0
  then have "pos_y (position t) + int y0 + 1 \<ge> 20" by linarith
  then have "collisionDetection s DOWN = Inr True"
    using collisionDetection_DOWN_Inr [OF "0.prems"(1-4)] "0.prems"(5) by auto
  then show ?case using "0.prems"(1) by (intro exI [of _ 0] exI [of _ s]) simp
next
  case (Suc m)
  let ?hit = "\<exists>(xx, yy)\<in>set (filledCells sh).
                pos_y (position t) + int yy + 1 \<ge> 20
                \<or> occupiedAt (grid s) (pos_y (position t) + int yy + 1) (pos_x (position t) + int xx)"
  have cd: "collisionDetection s DOWN = Inr ?hit"
    by (rule collisionDetection_DOWN_Inr [OF Suc.prems(1-4)])
  show ?case
  proof (cases ?hit)
    case True
    then have "collisionDetection s DOWN = Inr True" using cd by simp
    then show ?thesis using Suc.prems(1) by (intro exI [of _ 0] exI [of _ s]) simp
  next
    case False
    then have free: "collisionDetection s DOWN = Inr False" using cd by simp
    let ?t' = "t\<lparr>position := \<lparr>pos_x = pos_x (position t), pos_y = pos_y (position t) + 1\<rparr>\<rparr>"
    let ?s' = "s\<lparr>currentTetromino := Some ?t', speedCount := 0\<rparr>"
    have mv: "moveTetrominoDown h s = Inr ?s'"
      by (rule moveTetrominoDown_free [OF free Suc.prems(2)])
    have "\<exists>k p. k \<le> m \<and> downSteps k h ?s' = Inr p
           \<and> (\<forall>j<k. \<exists>q. downSteps j h ?s' = Inr q \<and> collisionDetection q DOWN = Inr False)
           \<and> collisionDetection p DOWN = Inr True
           \<and> length (grid p) = 20
           \<and> Drop_apply (Suc k) h ?s' = Some (moveTetrominoDown h p)"
    proof (rule Suc.IH [of ?s' ?t'])
      show "length (grid ?s') = 20" using Suc.prems(1) by simp
      show "currentTetromino ?s' = Some ?t'" by simp
      show "js_index (shapes ?t') (rotation ?t') = Some sh" using Suc.prems(3) by simp
      show "\<forall>(xx, yy)\<in>set (filledCells sh). 0 \<le> pos_y (position ?t') + int yy"
        using Suc.prems(4) by auto
      show "(x0, y0) \<in> set (filledCells sh)" by (rule Suc.prems(5))
      show "pos_y (position ?t') + int y0 < 20" using False Suc.prems(5) by auto
      show "m = nat (19 - (pos_y (position ?t') + int y0))" using Suc.prems(7) by simp
    qed
    then obtain k p where k: "k \<le> m" and ds: "downSteps k h ?s' = Inr p"
      and fr: "\<forall>j<k. \<exists>q. downSteps j h ?s' = Inr q \<and> collisionDetection q DOWN = Inr False"
      and hit: "collisionDetection p DOWN = Inr True" and len: "length (grid p) = 20"
      and dr: "Drop_apply (Suc k) h ?s' = Some (moveTetrominoDown h p)"
      by blast
    have fr': "\<exists>q. downSteps j h s = Inr q \<and> collisionDetection q DOWN = Inr False"
      if "j < Suc k" for j
    proof (cases j)
      case 0
      then show ?thesis using free by simp
    next
      case (Suc i)
      then show ?thesis using that fr mv by simp
    qed
    have "Suc k \<le> Suc m" using k by simp
    moreover have "downSteps (Suc k) h s = Inr p" using mv ds by simp
    moreover have "Drop_apply (Suc (Suc k)) h s = Some (moveTetrominoDown h p)"
      using free mv dr by simp
    ultimately show ?thesis using fr' hit len by blast
  qed
qed

text \<open>Every shape of the seven pieces has a filled cell. A piece without one never
  collides, and the recursion of \<open>Drop.apply\<close> does not end on it, whatever the fuel.\<close>

lemma Tetrominos_filled:
  "\<forall>t\<in>set Tetrominos. \<forall>sh\<in>set (shapes t). filledCells sh \<noteq> []"
  by code_simp

lemma Drop_apply_blankPiece:
  "currentTetromino s = Some (blankPiece r) \<Longrightarrow> Drop_apply n h s = None"
proof (induction n arbitrary: s r)
  case 0
  then show ?case by simp
next
  case (Suc n)
  have free: "collisionDetection s DOWN = Inr False"
    using Suc.prems by (simp add: collisionDetection_def blankPiece_def js_index_def)
  have mv: "moveTetrominoDown h s
              = Inr (s\<lparr>currentTetromino := Some (blankPiece (r + 1)), speedCount := 0\<rparr>)"
    using moveTetrominoDown_free [OF free Suc.prems, of h] by (simp add: blankPiece_def)
  have "Drop_apply n h (s\<lparr>currentTetromino := Some (blankPiece (r + 1)), speedCount := 0\<rparr>) = None"
    by (rule Suc.IH) simp
  then show ?case using free mv by simp
qed

text \<open>
  Claim C3. For every state (a grid of 20 rows, a current piece with an active shape
  that has a filled cell, as every tetromino has) whose filled cells all lie within the
  10 by 20 grid, the hard drop ends after at most 20 down-steps: there are \<open>k < 20\<close>
  down-steps without collision, each moving the piece one row, that lead from \<open>s\<close> to
  a state \<open>p\<close> with \<open>collisionDetection(p, DOWN) = true\<close>, and the result of the hard
  drop is the locking down-step applied to \<open>p\<close>, which throws no \<open>TypeError\<close>. The
  recursion makes \<open>k + 1\<close> calls.
\<close>

theorem Drop_terminates:
  assumes "length (grid s) = 20"
    and "currentTetromino s = Some t"
    and "js_index (shapes t) (rotation t) = Some sh"
    and "filledCells sh \<noteq> []"
    and "\<forall>(xx, yy)\<in>set (filledCells sh).
           0 \<le> pos_x (position t) + int xx \<and> pos_x (position t) + int xx < 10
           \<and> 0 \<le> pos_y (position t) + int yy \<and> pos_y (position t) + int yy < 20"
  shows "\<exists>k p. k < 20 \<and> downSteps k h s = Inr p
           \<and> (\<forall>j<k. \<exists>q. downSteps j h s = Inr q \<and> collisionDetection q DOWN = Inr False)
           \<and> collisionDetection p DOWN = Inr True
           \<and> Drop_apply (Suc k) h s = Some (moveTetrominoDown h p)
           \<and> Drop_apply 20 h s = Some (moveTetrominoDown h p)
           \<and> moveTetrominoDown h p \<noteq> Inl TypeError"
proof -
  obtain x0 y0 where c0: "(x0, y0) \<in> set (filledCells sh)"
    using assms(4) by (cases "filledCells sh") auto
  have rows: "\<forall>(xx, yy)\<in>set (filledCells sh). 0 \<le> pos_y (position t) + int yy"
    using assms(5) by auto
  have lo: "0 \<le> pos_y (position t) + int y0" and hi: "pos_y (position t) + int y0 < 20"
    using assms(5) c0 by auto
  obtain k p where k: "k \<le> nat (19 - (pos_y (position t) + int y0))"
    and ds: "downSteps k h s = Inr p"
    and fr: "\<forall>j<k. \<exists>q. downSteps j h s = Inr q \<and> collisionDetection q DOWN = Inr False"
    and hit: "collisionDetection p DOWN = Inr True" and len: "length (grid p) = 20"
    and dr: "Drop_apply (Suc k) h s = Some (moveTetrominoDown h p)"
    using Drop_reaches_collision [OF assms(1-3) rows c0 hi refl, of h] by blast
  have k20: "k < 20" using k lo by linarith
  then have "Suc k \<le> 20" by simp
  with dr have "Drop_apply 20 h s = Some (moveTetrominoDown h p)" by (rule Drop_apply_mono)
  moreover have "moveTetrominoDown h p \<noteq> Inl TypeError"
    using len hit by (rule moveTetrominoDown_lock_no_TypeError)
  ultimately show ?thesis using k20 ds fr hit dr by blast
qed

theorem Drop_terminates_witness:
  "length (grid (initialState 0 0)) = 20
   \<and> currentTetromino (initialState 0 0) = Some O_TETROMINO
   \<and> js_index (shapes O_TETROMINO) (rotation O_TETROMINO) = Some [[1, 1], [1, 1]]
   \<and> filledCells [[1, 1], [1, 1]] \<noteq> []
   \<and> list_all (\<lambda>(xx, yy).
          0 \<le> pos_x (position O_TETROMINO) + int xx \<and> pos_x (position O_TETROMINO) + int xx < 10
          \<and> 0 \<le> pos_y (position O_TETROMINO) + int yy \<and> pos_y (position O_TETROMINO) + int yy < 20)
        (filledCells [[1, 1], [1, 1]])
   \<and> (\<exists>k p. k < 20 \<and> downSteps k 0 (initialState 0 0) = Inr p
          \<and> collisionDetection p DOWN = Inr True
          \<and> Drop_apply 20 0 (initialState 0 0) = Some (moveTetrominoDown 0 p))"
proof -
  have h1: "length (grid (initialState 0 0)) = 20" by (simp add: initialState_0_0)
  have h2: "currentTetromino (initialState 0 0) = Some O_TETROMINO" by (simp add: initialState_0_0)
  have h3: "js_index (shapes O_TETROMINO) (rotation O_TETROMINO) = Some [[1, 1], [1, 1]]"
    by (simp add: O_TETROMINO_def js_index_def)
  have h4: "filledCells [[1, 1], [1, 1]] \<noteq> []" by (simp add: filledCells_square)
  have h5: "\<forall>(xx, yy)\<in>set (filledCells [[1, 1], [1, 1]]).
          0 \<le> pos_x (position O_TETROMINO) + int xx \<and> pos_x (position O_TETROMINO) + int xx < 10
          \<and> 0 \<le> pos_y (position O_TETROMINO) + int yy \<and> pos_y (position O_TETROMINO) + int yy < 20"
    by (simp add: filledCells_square Tetromino_defs Constants_defs)
  have h5': "list_all (\<lambda>(xx, yy).
          0 \<le> pos_x (position O_TETROMINO) + int xx \<and> pos_x (position O_TETROMINO) + int xx < 10
          \<and> 0 \<le> pos_y (position O_TETROMINO) + int yy \<and> pos_y (position O_TETROMINO) + int yy < 20)
        (filledCells [[1, 1], [1, 1]])"
    using h5 by (simp only: list_all_iff)
  from Drop_terminates [OF h1 h2 h3 h4 h5, of 0] h1 h2 h3 h4 h5' show ?thesis by blast
qed

section \<open>Emitted states\<close>

text \<open>What holds initially and is kept by every action holds in every emitted state.
  A hard drop is a sequence of down-steps; the tick is a reset, a down-step or a count.\<close>

lemma Drop_apply_preserves:
  assumes step: "\<And>s s'. P s \<Longrightarrow> moveTetrominoDown h s = Inr s' \<Longrightarrow> P s'"
  shows "P s \<Longrightarrow> Drop_apply n h s = Some (Inr s') \<Longrightarrow> P s'"
proof (induction n arbitrary: s)
  case 0
  then show ?case by simp
next
  case (Suc n)
  show ?case
  proof (cases "collisionDetection s DOWN")
    case (Inl e)
    then show ?thesis using Suc.prems by simp
  next
    case (Inr b)
    show ?thesis
    proof (cases b)
      case True
      then have "moveTetrominoDown h s = Inr s'" using Suc.prems(2) Inr by simp
      then show ?thesis using Suc.prems(1) by (rule step [rotated])
    next
      case False
      then obtain s1 where s1: "moveTetrominoDown h s = Inr s1"
        and rest: "Drop_apply n h s1 = Some (Inr s')"
        using Suc.prems(2) Inr by (auto split: sum.splits)
      have "P s1" using Suc.prems(1) s1 by (rule step)
      then show ?thesis using rest by (rule Suc.IH)
    qed
  qed
qed

lemma Move_apply_cases:
  assumes "Move_apply d s = Inr s'"
  obtains "s' = s"
  | t where "currentTetromino s = Some t"
      "s' = s\<lparr>currentTetromino :=
                 Some (t\<lparr>position := \<lparr>pos_x = pos_x (position t) + (if d = RIGHT then 1 else - 1),
                                       pos_y = pos_y (position t)\<rparr>\<rparr>)\<rparr>"
proof (cases "collisionDetection s d")
  case (Inl e)
  then show ?thesis using assms by (simp add: Move_apply_def)
next
  case (Inr b)
  show ?thesis
  proof (cases b)
    case True
    then have "s' = s" using assms Inr by (simp add: Move_apply_def)
    then show ?thesis by (rule that(1))
  next
    case False
    show ?thesis
    proof (cases "currentTetromino s")
      case None
      then show ?thesis using assms Inr False by (simp add: Move_apply_def)
    next
      case (Some t)
      then show ?thesis
        using assms Inr False that(2) [of t] by (simp add: Move_apply_def Let_def)
    qed
  qed
qed

lemma Rotate_apply_cases:
  assumes "Rotate_apply s = Inr s'"
  obtains "s' = s"
  | t where "currentTetromino s = Some t"
      "s' = s\<lparr>currentTetromino :=
                 Some (t\<lparr>rotation := (if rotation t + 1 < int (length (shapes t))
                                       then rotation t + 1 else 0)\<rparr>)\<rparr>"
proof (cases "currentTetromino s")
  case None
  then show ?thesis using assms by (simp add: Rotate_apply_def)
next
  case (Some t)
  let ?s' = "s\<lparr>currentTetromino :=
                 Some (t\<lparr>rotation := (if rotation t + 1 < int (length (shapes t))
                                       then rotation t + 1 else 0)\<rparr>)\<rparr>"
  show ?thesis
  proof (cases "collisionDetection ?s' ROTATE")
    case (Inl e)
    then show ?thesis using assms Some by (simp add: Rotate_apply_def Let_def)
  next
    case (Inr hit)
    then have "s' = (if \<not> hit then ?s' else s)"
      using assms Some by (simp add: Rotate_apply_def Let_def)
    then show ?thesis using that(1) that(2) [OF Some] by (cases hit) simp_all
  qed
qed

lemma Hold_apply_cases:
  assumes "Hold_apply h s = Inr s'"
  obtains "s' = s"
  | "s' = s\<lparr>currentTetromino := nextTetromino s, nextTetromino := randomTetromino h,
             heldElement := currentTetromino s, usedHold := True\<rparr>"
  | held where "heldElement s = Some held"
      "s' = s\<lparr>currentTetromino := Some held, heldElement := currentTetromino s,
               usedHold := True\<rparr>"
proof (cases "usedHold s")
  case True
  then have "s' = s" using assms by (simp add: Hold_apply_def)
  then show ?thesis by (rule that(1))
next
  case False
  show ?thesis
  proof (cases "heldElement s")
    case None
    then show ?thesis using assms False that(2) by (simp add: Hold_apply_def)
  next
    case (Some held)
    then show ?thesis using assms False that(3) [of held] by (simp add: Hold_apply_def)
  qed
qed

lemma reachable_invariant:
  assumes r: "reachable h1 h2 s"
    and init: "\<And>hs. P ((initialState h1 h2)\<lparr>highScore := hs\<rparr>)"
    and down: "\<And>s s' h. P s \<Longrightarrow> moveTetrominoDown h s = Inr s' \<Longrightarrow> P s'"
    and move: "\<And>s s' d. P s \<Longrightarrow> Move_apply d s = Inr s' \<Longrightarrow> P s'"
    and rot: "\<And>s s'. P s \<Longrightarrow> Rotate_apply s = Inr s' \<Longrightarrow> P s'"
    and hold: "\<And>s s' h. P s \<Longrightarrow> Hold_apply h s = Inr s' \<Longrightarrow> P s'"
    and tick: "\<And>s. P s \<Longrightarrow> P (s\<lparr>speedCount := speedCount s + 1\<rparr>)"
  shows "P s"
  using r
proof (induction rule: reachable.induct)
  case reachable_init
  have "(initialState h1 h2)\<lparr>highScore := 0\<rparr> = initialState h1 h2"
    by (simp add: initialState_def)
  then show ?case using init [of 0] by simp
next
  case (reachable_step s n h a s')
  show ?case
  proof (cases a)
    case GameFlow
    then have "GameFlow_apply (initialState h1 h2) h s = Inr s'"
      using reachable_step.hyps(2) by (simp add: reduceState_def)
    then show ?thesis
      using reachable_step.IH init tick down
      by (auto simp: GameFlow_apply_def split: if_splits)
  next
    case Down
    then show ?thesis
      using reachable_step.hyps(2) reachable_step.IH down
      by (auto simp: reduceState_def Down_apply_def)
  next
    case (Move d)
    then show ?thesis
      using reachable_step.hyps(2) reachable_step.IH move
      by (auto simp: reduceState_def)
  next
    case Rotate
    then show ?thesis
      using reachable_step.hyps(2) reachable_step.IH rot
      by (auto simp: reduceState_def)
  next
    case Drop
    then have "Drop_apply n h s = Some (Inr s')"
      using reachable_step.hyps(2) by (simp add: reduceState_def)
    then show ?thesis
      using Drop_apply_preserves [of P h s n s'] down reachable_step.IH by blast
  next
    case Hold
    then show ?thesis
      using reachable_step.hyps(2) reachable_step.IH hold
      by (auto simp: reduceState_def)
  qed
qed

lemma runActions_reachable:
  "reachable h1 h2 s \<Longrightarrow> runActions (initialState h1 h2) s evs = Some (Inr s') \<Longrightarrow>
     reachable h1 h2 s'"
proof (induction evs arbitrary: s)
  case Nil
  then show ?case by simp
next
  case (Cons ev evs)
  obtain a h where ev: "ev = (a, h)" by (cases ev)
  from Cons.prems(2) obtain s1 where
    s1: "reduceState (initialState h1 h2) 20 h s a = Some (Inr s1)"
    and rest: "runActions (initialState h1 h2) s1 evs = Some (Inr s')"
    unfolding ev by (auto split: option.splits sum.splits)
  have "reachable h1 h2 s1" using Cons.prems(1) s1 by (rule reachable_step)
  then show ?case using rest by (rule Cons.IH)
qed

subsection \<open>Grid dimensions\<close>

lemma lineClear_gridOK:
  assumes "gridOK g" and "lineClear g = Inr (newGrid, cleared)"
  shows "gridOK newGrid"
proof -
  have "g \<noteq> []" using assms(1) by (auto simp: gridOK_def)
  then have "length (hd g) = 10" using assms(1) by (simp add: gridOK_def)
  moreover have "length (filter fullRow g) + length (filter (\<lambda>row. \<not> fullRow row) g) = length g"
    by (rule sum_length_filter_compl)
  ultimately show ?thesis
    using assms(1) lineClear_Inr(2) [OF assms(2)] by (auto simp: gridOK_def)
qed

lemma placeTetrominoOnGrid_gridOK:
  assumes "gridOK g" and "placeTetrominoOnGrid g t = Inr placed"
  shows "gridOK placed"
  using assms placeTetrominoOnGrid_length [OF assms(2)]
    placeTetrominoOnGrid_row_length [OF assms(2)]
  by (simp add: gridOK_def all_set_conv_all_nth)

lemma initialState_gridOK: "gridOK (grid ((initialState h1 h2)\<lparr>highScore := hs\<rparr>))"
  by (simp add: gridOK_def initialState_def initialiseGrid_def Constants_defs)

lemma moveTetrominoDown_gridOK:
  assumes "gridOK (grid s)" and "moveTetrominoDown h s = Inr s'"
  shows "gridOK (grid s')"
  using assms(2)
proof (cases rule: moveTetrominoDown_cases)
  case (lock t placed newGrid cleared ended points)
  have "gridOK placed" using assms(1) lock(3) by (rule placeTetrominoOnGrid_gridOK)
  then have "gridOK newGrid" using lock(4) by (rule lineClear_gridOK)
  then show ?thesis using lock(7) by simp
next
  case (free t)
  then show ?thesis using assms(1) by simp
qed

lemma reachable_gridOK: "reachable h1 h2 s \<Longrightarrow> gridOK (grid s)"
proof (erule reachable_invariant [where P = "\<lambda>s. gridOK (grid s)"])
  show "\<And>hs. gridOK (grid ((initialState h1 h2)\<lparr>highScore := hs\<rparr>))"
    by (rule initialState_gridOK)
  show "\<And>s s' h. gridOK (grid s) \<Longrightarrow> moveTetrominoDown h s = Inr s' \<Longrightarrow> gridOK (grid s')"
    by (rule moveTetrominoDown_gridOK)
  show "\<And>s s' d. gridOK (grid s) \<Longrightarrow> Move_apply d s = Inr s' \<Longrightarrow> gridOK (grid s')"
    by (erule Move_apply_cases) simp_all
  show "\<And>s s'. gridOK (grid s) \<Longrightarrow> Rotate_apply s = Inr s' \<Longrightarrow> gridOK (grid s')"
    by (erule Rotate_apply_cases) simp_all
  show "\<And>s s' h. gridOK (grid s) \<Longrightarrow> Hold_apply h s = Inr s' \<Longrightarrow> gridOK (grid s')"
    by (erule Hold_apply_cases) simp_all
  show "\<And>s. gridOK (grid s) \<Longrightarrow> gridOK (grid (s\<lparr>speedCount := speedCount s + 1\<rparr>))"
    by simp
qed

lemma run_afterFirstDrop:
  "runActions (initialState 0 0) (initialState 0 0) [(Drop, 0)] = Some (Inr afterFirstDrop)"
  by code_simp

lemma reachable_afterFirstDrop: "reachable 0 0 afterFirstDrop"
  using reachable_init run_afterFirstDrop by (rule runActions_reachable)

text \<open>
  Claim C5. In every state reachable from the initial state by a finite sequence of
  the six actions (tick, move, rotate, soft-down, hard-drop, hold), the grid has exactly
  20 rows and every row has exactly 10 cells.
\<close>

theorem grid_dimension_invariant:
  "reachable h1 h2 s \<Longrightarrow> length (grid s) = 20 \<and> (\<forall>row\<in>set (grid s). length row = 10)"
  using reachable_gridOK [of h1 h2 s] by (simp add: gridOK_def)

theorem grid_dimension_invariant_witness:
  "reachable 0 0 afterFirstDrop
   \<and> length (grid afterFirstDrop) = 20
   \<and> list_all (\<lambda>row. length row = 10) (grid afterFirstDrop)"
  using grid_dimension_invariant [OF reachable_afterFirstDrop] reachable_afterFirstDrop
  unfolding list_all_iff by blast

subsection \<open>Rows cleared by one placement\<close>

lemma Tetrominos_okPiece: "\<forall>t\<in>set Tetrominos. okPiece t"
  by (simp add: Tetrominos_def Tetromino_defs okPiece_def)

lemma randomTetromino_okPiece: "randomTetromino h = Some t \<Longrightarrow> okPiece t"
  using Tetrominos_okPiece
  by (auto simp: randomTetromino_def js_index_def split: if_splits)

lemma okPiece_position [simp]: "okPiece (t\<lparr>position := p\<rparr>) = okPiece t"
  by (simp add: okPiece_def)

lemma okPiece_rotate:
  "okPiece t \<Longrightarrow>
     okPiece (t\<lparr>rotation := (if rotation t + 1 < int (length (shapes t)) then rotation t + 1 else 0)\<rparr>)"
  by (auto simp: okPiece_def)

lemma okPiece_shape:
  "okPiece t \<Longrightarrow> \<exists>sh. js_index (shapes t) (rotation t) = Some sh \<and> length sh \<le> 4"
  by (auto simp: okPiece_def js_index_def)

lemma emptyRow_not_full: "0 < n \<Longrightarrow> \<not> fullRow (replicate n None)"
  by (simp add: fullRow_def list_all_iff)

lemma lineClear_no_full:
  assumes "gridOK g" and "lineClear g = Inr (newGrid, cleared)"
  shows "\<forall>row\<in>set newGrid. \<not> fullRow row"
proof -
  have "g \<noteq> []" using assms(1) by (auto simp: gridOK_def)
  then have "length (hd g) = 10" using assms(1) by (simp add: gridOK_def)
  then show ?thesis
    using lineClear_Inr(2) [OF assms(2)] emptyRow_not_full [of 10] by auto
qed

lemma initialState_playOK: "playOK ((initialState h1 h2)\<lparr>highScore := hs\<rparr>)"
proof -
  have "\<forall>row\<in>set (grid ((initialState h1 h2)\<lparr>highScore := hs\<rparr>)). \<not> fullRow row"
    using emptyRow_not_full [of 10]
    by (simp add: initialState_def initialiseGrid_def Constants_defs)
  moreover have "piecesOK ((initialState h1 h2)\<lparr>highScore := hs\<rparr>)"
    by (auto simp: piecesOK_def initialState_def dest: randomTetromino_okPiece)
  moreover have "gridOK (grid ((initialState h1 h2)\<lparr>highScore := hs\<rparr>))"
    by (rule initialState_gridOK)
  ultimately show ?thesis
    unfolding playOK_def by blast
qed

lemma moveTetrominoDown_playOK:
  assumes "playOK s" and "moveTetrominoDown h s = Inr s'"
  shows "playOK s'"
  using assms(2)
proof (cases rule: moveTetrominoDown_cases)
  case (lock t placed newGrid cleared ended points)
  have "gridOK placed" using assms(1) lock(3) by (auto simp: playOK_def intro: placeTetrominoOnGrid_gridOK)
  then have "gridOK newGrid" and "\<forall>row\<in>set newGrid. \<not> fullRow row"
    using lock(4) by (rule lineClear_gridOK, rule lineClear_no_full)
  moreover have "piecesOK s'"
    using assms(1) lock(7) by (auto simp: playOK_def piecesOK_def dest: randomTetromino_okPiece)
  ultimately show ?thesis using lock(7) by (simp add: playOK_def)
next
  case (free t)
  then show ?thesis using assms(1) by (auto simp: playOK_def piecesOK_def)
qed

lemma reachable_playOK: "reachable h1 h2 s \<Longrightarrow> playOK s"
proof (erule reachable_invariant [where P = playOK])
  show "\<And>hs. playOK ((initialState h1 h2)\<lparr>highScore := hs\<rparr>)"
    by (rule initialState_playOK)
  show "\<And>s s' h. playOK s \<Longrightarrow> moveTetrominoDown h s = Inr s' \<Longrightarrow> playOK s'"
    by (rule moveTetrominoDown_playOK)
  show "\<And>s s' d. playOK s \<Longrightarrow> Move_apply d s = Inr s' \<Longrightarrow> playOK s'"
    by (erule Move_apply_cases) (auto simp: playOK_def piecesOK_def)
  show "\<And>s s'. playOK s \<Longrightarrow> Rotate_apply s = Inr s' \<Longrightarrow> playOK s'"
    by (erule Rotate_apply_cases) (auto simp: playOK_def piecesOK_def okPiece_def)
  show "\<And>s s' h. playOK s \<Longrightarrow> Hold_apply h s = Inr s' \<Longrightarrow> playOK s'"
    by (erule Hold_apply_cases) (auto simp: playOK_def piecesOK_def dest: randomTetromino_okPiece)
  show "\<And>s. playOK s \<Longrightarrow> playOK (s\<lparr>speedCount := speedCount s + 1\<rparr>)"
    by (simp add: playOK_def piecesOK_def)
qed

lemma playOK_placement:
  assumes ok: "playOK s" and cur: "currentTetromino s = Some t"
  shows "\<exists>placed newGrid cleared points.
           placeTetrominoOnGrid (grid s) t = Inr placed
           \<and> lineClear placed = Inr (newGrid, cleared)
           \<and> 0 \<le> cleared \<and> cleared \<le> 4
           \<and> calculateScore (level s) cleared = Inr points"
proof -
  have "okPiece t" using ok cur by (simp add: playOK_def piecesOK_def)
  then obtain sh where sh: "js_index (shapes t) (rotation t) = Some sh" and len: "length sh \<le> 4"
    using okPiece_shape by blast
  obtain placed where pl: "placeTetrominoOnGrid (grid s) t = Inr placed"
    using placeTetrominoOnGrid_total [OF sh] by blast
  have "placed \<noteq> []"
    using placeTetrominoOnGrid_length [OF pl] ok by (auto simp: playOK_def gridOK_def)
  then obtain r0 rs where "placed = r0 # rs" by (cases placed) auto
  then obtain newGrid where lc: "lineClear placed = Inr (newGrid, int (length (filter fullRow placed)))"
    using lineClear_Cons [of r0 rs] by simp
  have "length (filter fullRow placed) \<le> length sh"
  proof (rule placed_full_rows_bound [OF pl sh])
    show "\<forall>row\<in>set (grid s). \<not> fullRow row" using ok unfolding playOK_def by blast
  qed
  then have b: "0 \<le> int (length (filter fullRow placed))" "int (length (filter fullRow placed)) \<le> 4"
    using len by simp_all
  obtain points where "calculateScore (level s) (int (length (filter fullRow placed))) = Inr points"
    using calculateScore_Inr [OF b] by blast
  then show ?thesis using pl lc b by blast
qed

lemma moveTetrominoDown_no_NaN:
  assumes "playOK s"
  shows "moveTetrominoDown h s \<noteq> Inl NotANumber"
proof (cases "collisionDetection s DOWN")
  case (Inl e)
  then show ?thesis using collisionDetection_Inl [OF Inl] by (simp add: moveTetrominoDown_def)
next
  case (Inr b)
  obtain t where t: "currentTetromino s = Some t"
    using collisionDetection_Inr_piece [OF Inr] by blast
  show ?thesis
  proof (cases b)
    case False
    then show ?thesis using Inr t by (simp add: moveTetrominoDown_def)
  next
    case True
    obtain placed newGrid cleared points where
      "placeTetrominoOnGrid (grid s) t = Inr placed" "lineClear placed = Inr (newGrid, cleared)"
      "calculateScore (level s) cleared = Inr points"
      using playOK_placement [OF assms t] by blast
    then show ?thesis using Inr True t
      by (cases "topOut newGrid") (auto simp: moveTetrominoDown_def Let_def topOut_def split: list.splits)
  qed
qed

lemma Drop_apply_no_NaN:
  "playOK s \<Longrightarrow> Drop_apply n h s \<noteq> Some (Inl NotANumber)"
proof (induction n arbitrary: s)
  case 0
  then show ?case by simp
next
  case (Suc n)
  show ?case
  proof (cases "collisionDetection s DOWN")
    case (Inl e)
    then show ?thesis using collisionDetection_Inl [OF Inl] by simp
  next
    case (Inr b)
    show ?thesis
    proof (cases "moveTetrominoDown h s")
      case (Inl e)
      then have "e \<noteq> NotANumber" using moveTetrominoDown_no_NaN [OF Suc.prems, of h] by auto
      then show ?thesis using Inr Inl by (cases b) simp_all
    next
      case (Inr s1)
      then have "playOK s1" using Suc.prems moveTetrominoDown_playOK by blast
      then have "Drop_apply n h s1 \<noteq> Some (Inl NotANumber)" by (rule Suc.IH)
      then show ?thesis using \<open>collisionDetection s DOWN = Inr b\<close> Inr by (cases b) simp_all
    qed
  qed
qed

lemma reduceState_no_NaN:
  assumes "playOK s" and "playOK init"
  shows "reduceState init n h s a \<noteq> Some (Inl NotANumber)"
proof (cases a)
  case GameFlow
  then show ?thesis using moveTetrominoDown_no_NaN [OF assms(1), of h]
    by (simp add: reduceState_def GameFlow_apply_def)
next
  case Down
  then show ?thesis using moveTetrominoDown_no_NaN [OF assms(1), of h]
    by (simp add: reduceState_def Down_apply_def)
next
  case (Move d)
  then show ?thesis
    by (auto simp: reduceState_def Move_apply_def Let_def
             split: sum.splits bool.splits option.splits dest: collisionDetection_Inl)
next
  case Rotate
  then show ?thesis
    by (auto simp: reduceState_def Rotate_apply_def Let_def
             split: sum.splits bool.splits option.splits dest: collisionDetection_Inl)
next
  case Drop
  then show ?thesis using Drop_apply_no_NaN [OF assms(1)] by (simp add: reduceState_def)
next
  case Hold
  then show ?thesis by (simp add: reduceState_def Hold_apply_def split: option.splits)
qed

lemma run_landedBeforeClear:
  "runActions (initialState 0 0) (initialState 0 0) (take 16 fiveSquares @ replicate 18 (Down, 0))
     = Some (Inr landedBeforeClear)"
  by code_simp

lemma reachable_landedBeforeClear: "reachable 0 0 landedBeforeClear"
  using reachable_init run_landedBeforeClear by (rule runActions_reachable)

lemma placement_landedBeforeClear:
  "placeTetrominoOnGrid (grid landedBeforeClear) (squareAt 8 18)
     = Inr (replicate 18 (replicate 10 None) @ replicate 2 (replicate 10 (Some ''yellow'')))
   \<and> lineClear (replicate 18 (replicate 10 None) @ replicate 2 (replicate 10 (Some ''yellow'')))
     = Inr (replicate 20 (replicate 10 None), 2)"
  by code_simp

text \<open>
  Claim C9. In every reachable state, placing the current piece and clearing lines
  removes at most 4 rows: the number \<open>lineClear\<close> hands to \<open>calculateScore\<close> is in 0..4,
  so the lookup \<open>scores[rowsCleared - 1]\<close> stays inside the table and the score is a
  number. No down-step and no action of the play ends in \<open>NotANumber\<close>.
\<close>

theorem placement_clears_at_most_four:
  assumes "reachable h1 h2 s"
  shows "(\<forall>t. currentTetromino s = Some t \<longrightarrow>
            (\<exists>placed newGrid cleared points.
               placeTetrominoOnGrid (grid s) t = Inr placed
               \<and> lineClear placed = Inr (newGrid, cleared)
               \<and> 0 \<le> cleared \<and> cleared \<le> 4
               \<and> calculateScore (level s) cleared = Inr points))
         \<and> moveTetrominoDown h s \<noteq> Inl NotANumber
         \<and> reduceState (initialState h1 h2) n h s a \<noteq> Some (Inl NotANumber)"
proof -
  have ok: "playOK s" using assms by (rule reachable_playOK)
  have ok0: "playOK (initialState h1 h2)" using reachable_init by (rule reachable_playOK)
  show ?thesis
    using playOK_placement [OF ok] moveTetrominoDown_no_NaN [OF ok] reduceState_no_NaN [OF ok ok0]
    by blast
qed

theorem placement_clears_at_most_four_witness:
  "reachable 0 0 landedBeforeClear \<and> currentTetromino landedBeforeClear = Some (squareAt 8 18)
   \<and> (\<exists>placed newGrid. placeTetrominoOnGrid (grid landedBeforeClear) (squareAt 8 18) = Inr placed
          \<and> lineClear placed = Inr (newGrid, 2))
   \<and> (\<exists>placed newGrid cleared points.
          placeTetrominoOnGrid (grid landedBeforeClear) (squareAt 8 18) = Inr placed
          \<and> lineClear placed = Inr (newGrid, cleared)
          \<and> 0 \<le> cleared \<and> cleared \<le> 4
          \<and> calculateScore (level landedBeforeClear) cleared = Inr points)
   \<and> moveTetrominoDown 0 landedBeforeClear \<noteq> Inl NotANumber"
proof -
  have h: "currentTetromino landedBeforeClear = Some (squareAt 8 18)"
    by (simp add: landedBeforeClear_def)
  from placement_clears_at_most_four [OF reachable_landedBeforeClear, of 0]
    reachable_landedBeforeClear h placement_landedBeforeClear
  show ?thesis by blast
qed

subsection \<open>Fall speed\<close>











end
